theory Spec2Isabelle
  imports Complex_Main "HOL-Library.Option_ord" "HOL-Library.Multiset" "HOL-Library.Sublist"
begin

section \<open>Data model\<close>

record row =
  x_coord :: real
  y_coord :: real
  tBreak :: "int option"

datatype error = IndexError | ValueError | KeyError | OutOfBoundsDatetime

definition np_round :: "real \<Rightarrow> int" where
  "np_round t =
     (let f = \<lfloor>t\<rfloor>; d = t - of_int f
      in if d < 1 / 2 then f
         else if 1 / 2 < d then f + 1
         else if even f then f else f + 1)"

record raster_params =
  width :: int
  height :: int
  resolution :: "real \<times> real"
  bounds :: "real \<times> real \<times> real \<times> real"

fun column_min :: "real list \<Rightarrow> real option" where
  "column_min [] = None"
| "column_min (v # vs) = Some (fold min vs v)"

fun column_max :: "real list \<Rightarrow> real option" where
  "column_max [] = None"
| "column_max (v # vs) = Some (fold max vs v)"

definition calculate_raster_parameters_utm :: "row list \<Rightarrow> error + raster_params" where
  "calculate_raster_parameters_utm gdf =
     (case (column_min (map x_coord gdf), column_min (map y_coord gdf),
            column_max (map x_coord gdf), column_max (map y_coord gdf)) of
        (Some min_x, Some min_y, Some max_x, Some max_y) \<Rightarrow>
          (let res_x = 10; res_y = 10;
               min_x_corner = min_x - res_x / 2;
               min_y_corner = min_y - res_y / 2;
               max_x_corner = max_x + res_x / 2;
               max_y_corner = max_y + res_y / 2
           in Inr \<lparr> width = \<lceil>(max_x_corner - min_x_corner) / res_x\<rceil>,
                    height = \<lceil>(max_y_corner - min_y_corner) / res_y\<rceil>,
                    resolution = (res_x, res_y),
                    bounds = (min_x_corner, min_y_corner, max_x_corner, max_y_corner) \<rparr>)
      | _ \<Rightarrow> Inl ValueError)"

definition x_idx :: "raster_params \<Rightarrow> row \<Rightarrow> int" where
  "x_idx ps r =
     (case bounds ps of (min_x, min_y, max_x, max_y) \<Rightarrow>
        np_round ((x_coord r - min_x) / fst (resolution ps) - 1 / 2))"

definition y_idx :: "raster_params \<Rightarrow> row \<Rightarrow> int" where
  "y_idx ps r =
     (case bounds ps of (min_x, min_y, max_x, max_y) \<Rightarrow>
        np_round ((max_y - y_coord r) / snd (resolution ps) - 1 / 2))"

definition in_raster :: "raster_params \<Rightarrow> row \<Rightarrow> bool" where
  "in_raster ps r \<longleftrightarrow>
     0 \<le> x_idx ps r \<and> x_idx ps r < width ps \<and> 0 \<le> y_idx ps r \<and> y_idx ps r < height ps"

section \<open>Break selection per pixel\<close>

text \<open>
  A pixel group is the list of its rows in frame order. The frame's index labels are
  unique, so a row's label is taken to be its position in the group as passed; filtering
  keeps the labels. The date bounds are given already converted to milliseconds since
  the epoch (the values \<open>search_start_ms\<close> and \<open>search_end_ms\<close> of the source).
  A null \<open>tBreak\<close> compares false against every bound.
\<close>

type_synonym labelled = "nat \<times> row"

definition ge_ms :: "int option \<Rightarrow> int \<Rightarrow> bool" where
  "ge_ms t b = (case t of None \<Rightarrow> False | Some v \<Rightarrow> b \<le> v)"

definition le_ms :: "int option \<Rightarrow> int \<Rightarrow> bool" where
  "le_ms t b = (case t of None \<Rightarrow> False | Some v \<Rightarrow> v \<le> b)"

text \<open>
  \<open>Series.nlargest(n)\<close> with the default \<open>keep='first'\<close>: the first \<open>n\<close> entries of the
  series in descending order of value, ties in frame order, nulls last.
\<close>

fun insert_desc :: "labelled \<Rightarrow> labelled list \<Rightarrow> labelled list" where
  "insert_desc p [] = [p]"
| "insert_desc p (q # qs) =
     (if tBreak (snd p) < tBreak (snd q) then q # insert_desc p qs else p # q # qs)"

definition sort_desc :: "labelled list \<Rightarrow> labelled list" where
  "sort_desc ps = foldr insert_desc ps []"

definition nlargest :: "nat \<Rightarrow> labelled list \<Rightarrow> labelled list" where
  "nlargest n ps = take n (sort_desc ps)"

definition loc :: "labelled list \<Rightarrow> nat \<Rightarrow> error + row" where
  "loc ps l = (case map_of ps l of None \<Rightarrow> Inl KeyError | Some r \<Rightarrow> Inr r)"

definition filter_pixel_group :: "row list \<Rightarrow> int option \<Rightarrow> int option \<Rightarrow> error + row option" where
  "filter_pixel_group grp search_start search_end =
     (let frame = zip [0..<length grp] grp;
          bounded = (search_start \<noteq> None \<or> search_end \<noteq> None);
          from_start = (case search_start of
                          None \<Rightarrow> frame
                        | Some search_start_ms \<Rightarrow>
                            filter (\<lambda>p. ge_ms (tBreak (snd p)) search_start_ms) frame);
          filtered_group = (case search_end of
                          None \<Rightarrow> from_start
                        | Some search_end_ms \<Rightarrow>
                            filter (\<lambda>p. le_ms (tBreak (snd p)) search_end_ms) from_start)
      in if bounded \<and> length filtered_group = 0 then Inr None
         else let g = (if bounded then filtered_group else frame)
              in if length g = 1 then Inr (Some (snd (hd g)))
                 else (case nlargest 2 g of
                         [] \<Rightarrow> Inl IndexError
                       | largest \<Rightarrow> (case loc g (fst (last largest)) of
                                   Inl e \<Rightarrow> Inl e
                                 | Inr r \<Rightarrow> Inr (Some r))))"

section \<open>Expanding list columns\<close>

text \<open>
  A data frame is the list of its columns in order, each a name with one cell per row;
  column names are unique in a well-formed frame. A cell is null, an atomic value or a
  Python list of cells.
\<close>

datatype 'a cell = Null | Atom 'a | ListCell "'a cell list"

type_synonym 'a dataframe = "(string \<times> 'a cell list) list"

fun is_list :: "'a cell \<Rightarrow> bool" where
  "is_list (ListCell xs) = True"
| "is_list _ = False"

text \<open>The decimal rendering of a non-negative integer, as \<open>str\<close> and f-strings give it.\<close>

fun str_nat :: "nat \<Rightarrow> string" where
  "str_nat n =
     (if n < 10 then [''0123456789'' ! n]
      else str_nat (n div 10) @ [''0123456789'' ! (n mod 10)])"

declare str_nat.simps [simp del]

text \<open>\<open>lambda x: x[i] if isinstance(x, list) and len(x) > i else None\<close>\<close>

fun item :: "nat \<Rightarrow> 'a cell \<Rightarrow> 'a cell" where
  "item i (ListCell xs) = (if length xs > i then xs ! i else Null)"
| "item i _ = Null"

text \<open>\<open>df[name] = values\<close>: an existing column is overwritten in place, a new one is appended.\<close>

fun set_column :: "string \<Rightarrow> 'a cell list \<Rightarrow> 'a dataframe \<Rightarrow> 'a dataframe" where
  "set_column name vals [] = [(name, vals)]"
| "set_column name vals ((n, s) # cols) =
     (if n = name then (n, vals) # cols else (n, s) # set_column name vals cols)"

text \<open>\<open>df.drop(columns=[col], inplace=True)\<close> raises \<open>KeyError\<close> when the column is absent.\<close>

definition drop_column :: "string \<Rightarrow> 'a dataframe \<Rightarrow> error + 'a dataframe" where
  "drop_column col df =
     (if col \<in> fst ` set df then Inr (filter (\<lambda>c. fst c \<noteq> col) df) else Inl KeyError)"

definition expand_column :: "string \<Rightarrow> 'a cell list \<Rightarrow> int \<Rightarrow> 'a dataframe \<Rightarrow> 'a dataframe" where
  "expand_column col series max_itens df_expandido =
     fold (\<lambda>i. set_column (col @ str_nat (i + 1)) (map (item i) series))
          [0..<nat max_itens] df_expandido"

fun for_prefixos ::
  "string \<Rightarrow> 'a cell list \<Rightarrow> int \<Rightarrow> string list \<Rightarrow> 'a dataframe \<Rightarrow> error + 'a dataframe" where
  "for_prefixos col series max_itens [] df_expandido = Inr df_expandido"
| "for_prefixos col series max_itens (pfx # prefixos) df_expandido =
     (if prefix pfx col \<and> list_ex is_list series then
        (case drop_column col (expand_column col series max_itens df_expandido) of
           Inl e \<Rightarrow> Inl e
         | Inr df' \<Rightarrow> for_prefixos col series max_itens prefixos df')
      else for_prefixos col series max_itens prefixos df_expandido)"

fun for_columns ::
  "'a dataframe \<Rightarrow> string list \<Rightarrow> int \<Rightarrow> 'a dataframe \<Rightarrow> error + 'a dataframe" where
  "for_columns [] prefixos max_itens df_expandido = Inr df_expandido"
| "for_columns ((col, series) # cols) prefixos max_itens df_expandido =
     (case for_prefixos col series max_itens prefixos df_expandido of
        Inl e \<Rightarrow> Inl e
      | Inr df' \<Rightarrow> for_columns cols prefixos max_itens df')"

definition expandir_listas_em_colunas ::
  "'a dataframe \<Rightarrow> string list \<Rightarrow> int \<Rightarrow> error + 'a dataframe" where
  "expandir_listas_em_colunas df prefixos max_itens = for_columns df prefixos max_itens df"

text \<open>
  A column is expanded when its name starts with one of the prefixes and it holds at
  least one list value.
\<close>

definition expands :: "string list \<Rightarrow> string \<times> 'a cell list \<Rightarrow> bool" where
  "expands prefixos c \<longleftrightarrow> list_ex (\<lambda>pfx. prefix pfx (fst c)) prefixos \<and> list_ex is_list (snd c)"

text \<open>
  The state of the output frame once the columns \<open>processed\<close> of the input \<open>df\<close> have
  been handled: expanded columns are gone and their generated columns hold the items,
  every other input column is still as it was, and no other column has appeared.
\<close>

definition columns_done ::
  "'a dataframe \<Rightarrow> string list \<Rightarrow> int \<Rightarrow> 'a dataframe \<Rightarrow> 'a dataframe \<Rightarrow> bool" where
  "columns_done df prefixos max_itens processed out \<longleftrightarrow>
     distinct (map fst out) \<and>
     (\<forall>c \<in> set processed. expands prefixos c \<longrightarrow>
        fst c \<notin> fst ` set out \<and>
        (\<forall>i < nat max_itens. map_of out (fst c @ str_nat (Suc i)) = Some (map (item i) (snd c)))) \<and>
     (\<forall>c \<in> set df. \<not> (expands prefixos c \<and> c \<in> set processed) \<longrightarrow>
        map_of out (fst c) = Some (snd c)) \<and>
     fst ` set out \<subseteq> fst ` set df \<union>
        {fst c @ str_nat (Suc i) | c i. c \<in> set processed \<and> expands prefixos c \<and> i < nat max_itens}"

section \<open>Observations around a reference date\<close>

text \<open>
  A date is held as its day number (the proleptic Gregorian ordinal of a \<open>datetime\<close> at
  midnight), so that adding a \<open>timedelta\<close> of whole days is integer addition and the
  order of dates, which is also the order of their \<open>%Y%m%d\<close> renderings, is the order of
  integers. The two-dimensional array \<open>pixel_vals\<close> has one line per date and one column
  per band; it is given by its shape and the value at each line and column, of which only
  those inside the shape are ever read.
\<close>

record ndarray =
  n_rows :: nat
  n_cols :: nat
  value_at :: "nat \<Rightarrow> nat \<Rightarrow> int"

text \<open>
  \<open>pixel_vals[:, b]\<close>: the values of band \<open>b\<close>, one per line; an \<open>IndexError\<close> when the
  array has no such band.
\<close>

definition band_values :: "ndarray \<Rightarrow> nat \<Rightarrow> int list" where
  "band_values pixel_vals b = map (\<lambda>i. value_at pixel_vals i b) [0..<n_rows pixel_vals]"

definition column :: "ndarray \<Rightarrow> nat \<Rightarrow> error + int list" where
  "column pixel_vals b =
     (if b < n_cols pixel_vals then Inr (band_values pixel_vals b) else Inl IndexError)"

text \<open>A frame with the columns \<open>data\<close> and \<open>valor\<close> is the list of its rows.\<close>

type_synonym frame = "(int \<times> int) list"

text \<open>\<open>pd.DataFrame({'data': ..., 'valor': ...})\<close> refuses columns of different lengths.\<close>

definition data_frame :: "int list \<Rightarrow> int list \<Rightarrow> error + frame" where
  "data_frame data valor =
     (if length data = length valor then Inr (zip data valor) else Inl ValueError)"

definition query_valid :: "frame \<Rightarrow> frame" where
  "query_valid df = filter (\<lambda>r. snd r \<noteq> 65535) df"

definition sort_values :: "frame \<Rightarrow> frame" where
  "sort_values df = sort_key fst df"

text \<open>
  With \<open>ascending=False\<close> pandas sorts the reversed frame and reverses the outcome.
\<close>

definition sort_values_desc :: "frame \<Rightarrow> frame" where
  "sort_values_desc df = rev (sort_key fst (rev df))"

text \<open>\<open>df.head(n)\<close>; a negative \<open>n\<close> keeps all rows but the last \<open>-n\<close>.\<close>

definition head :: "int \<Rightarrow> 'a list \<Rightarrow> 'a list" where
  "head n df = (if 0 \<le> n then take (nat n) df else take (length df - nat (- n)) df)"

text \<open>
  \<open>pd.DataFrame({...}).query("valor != 65535").sort_values('data')\<close> for band \<open>b\<close>.
\<close>

definition observations :: "int list \<Rightarrow> ndarray \<Rightarrow> nat \<Rightarrow> error + frame" where
  "observations datas_pixel pixel_vals b =
     (case column pixel_vals b of
        Inl e \<Rightarrow> Inl e
      | Inr valor \<Rightarrow>
          (case data_frame datas_pixel valor of
             Inl e \<Rightarrow> Inl e
           | Inr df \<Rightarrow> Inr (sort_values (query_valid df))))"

definition antes_of :: "frame \<Rightarrow> int \<Rightarrow> int \<Rightarrow> frame" where
  "antes_of df data_target N_OBS =
     head N_OBS (sort_values_desc (filter (\<lambda>r. fst r \<le> data_target) df))"

definition depois_of :: "frame \<Rightarrow> int \<Rightarrow> int \<Rightarrow> frame" where
  "depois_of df data_target N_OBS =
     head N_OBS (sort_values (filter (\<lambda>r. fst r > data_target) df))"

definition data_target_of :: "int \<Rightarrow> int option \<Rightarrow> int" where
  "data_target_of data_0 data_1 =
     (case data_1 of
        None \<Rightarrow> data_0
      | Some d1 \<Rightarrow> if d1 \<noteq> data_0 then data_0 + (d1 - data_0) div 2 else data_0)"

text \<open>The returned dictionary maps a key to a number, a date, \<open>None\<close> or a list.\<close>

datatype entry =
  Number real | Index int | Day int | Missing | Days "int list" | Values "int list"

type_synonym pixel_row = "string \<rightharpoonup> entry"

fun empty_bands :: "string list \<Rightarrow> pixel_row \<Rightarrow> pixel_row" where
  "empty_bands [] row = row"
| "empty_bands (b # band_names) row =
     empty_bands band_names (row(b @ ''_a'' \<mapsto> Values [], b @ ''_d'' \<mapsto> Values []))"

fun for_bands ::
  "int list \<Rightarrow> ndarray \<Rightarrow> int \<Rightarrow> int \<Rightarrow> nat \<Rightarrow> string list \<Rightarrow> pixel_row
     \<Rightarrow> error + pixel_row" where
  "for_bands datas_pixel pixel_vals data_target N_OBS b [] row = Inr row"
| "for_bands datas_pixel pixel_vals data_target N_OBS b (band_name # band_names) row =
     (case observations datas_pixel pixel_vals b of
        Inl e \<Rightarrow> Inl e
      | Inr df_band \<Rightarrow>
          for_bands datas_pixel pixel_vals data_target N_OBS (Suc b) band_names
            (row(band_name @ ''_a'' \<mapsto>
                   Values (map snd (sort_values (antes_of df_band data_target N_OBS))),
                 band_name @ ''_d'' \<mapsto>
                   Values (map snd (depois_of df_band data_target N_OBS)))))"

definition processar_pixel ::
  "int \<Rightarrow> real \<Rightarrow> real \<Rightarrow> ndarray \<Rightarrow> int list \<Rightarrow> int \<Rightarrow> string list \<Rightarrow> int option \<Rightarrow> int
     \<Rightarrow> error + pixel_row" where
  "processar_pixel pixel_idx x y pixel_vals datas_pixel data_0 band_names data_1 N_OBS =
     (let data_target = data_target_of data_0 data_1;
          row = [''x'' \<mapsto> Number x, ''y'' \<mapsto> Number y, ''idx_h5'' \<mapsto> Index pixel_idx,
                 ''data_0'' \<mapsto> Day data_0,
                 ''data_1'' \<mapsto> (case data_1 of None \<Rightarrow> Missing | Some d1 \<Rightarrow> Day d1),
                 ''data_mid'' \<mapsto> Day data_target]
      in case observations datas_pixel pixel_vals 0 of
           Inl e \<Rightarrow> Inl e
         | Inr df_base \<Rightarrow>
             if df_base = [] then
               Inr (empty_bands band_names (row(''dts_a'' \<mapsto> Days [], ''dts_d'' \<mapsto> Days [])))
             else
               for_bands datas_pixel pixel_vals data_target N_OBS 0 band_names
                 (row(''dts_a'' \<mapsto> Days (sort (map fst (antes_of df_base data_target N_OBS))),
                      ''dts_d'' \<mapsto> Days (map fst (depois_of df_base data_target N_OBS)))))"

text \<open>
  What it means for \<open>sel\<close> to hold the at most \<open>n\<close> rows of \<open>cands\<close> nearest to a date that
  no candidate exceeds, or that every candidate exceeds, in ascending order of date.
\<close>

definition nearest_before :: "int \<Rightarrow> frame \<Rightarrow> frame \<Rightarrow> bool" where
  "nearest_before n cands sel \<longleftrightarrow>
     mset sel \<subseteq># mset cands \<and> length sel = min (nat n) (length cands) \<and>
     sorted (map fst sel) \<and>
     (\<forall>r \<in># mset cands - mset sel. \<forall>s \<in> set sel. fst r \<le> fst s)"

definition nearest_after :: "int \<Rightarrow> frame \<Rightarrow> frame \<Rightarrow> bool" where
  "nearest_after n cands sel \<longleftrightarrow>
     mset sel \<subseteq># mset cands \<and> length sel = min (nat n) (length cands) \<and>
     sorted (map fst sel) \<and>
     (\<forall>r \<in># mset cands - mset sel. \<forall>s \<in> set sel. fst s \<le> fst r)"

definition valid_before :: "int list \<Rightarrow> int list \<Rightarrow> int \<Rightarrow> frame" where
  "valid_before data valor t = filter (\<lambda>r. snd r \<noteq> 65535 \<and> fst r \<le> t) (zip data valor)"

definition valid_after :: "int list \<Rightarrow> int list \<Rightarrow> int \<Rightarrow> frame" where
  "valid_after data valor t = filter (\<lambda>r. snd r \<noteq> 65535 \<and> fst r > t) (zip data valor)"

section \<open>Timestamps\<close>

text \<open>
  The calendar date of a pandas timestamp. A date is a triple of year, month and day in
  the proleptic Gregorian calendar.
\<close>

type_synonym date = "int \<times> int \<times> int"

definition leap :: "int \<Rightarrow> bool" where
  "leap y \<longleftrightarrow> y mod 4 = 0 \<and> (y mod 100 \<noteq> 0 \<or> y mod 400 = 0)"

definition days_in_year :: "int \<Rightarrow> int" where
  "days_in_year y = (if leap y then 366 else 365)"

definition days_in_month :: "int \<Rightarrow> int \<Rightarrow> int" where
  "days_in_month y m =
     (if m = 2 then (if leap y then 29 else 28)
      else if m = 4 \<or> m = 6 \<or> m = 9 \<or> m = 11 then 30 else 31)"

text \<open>The month and day that lie \<open>k\<close> days after the first day of month \<open>m\<close> of year \<open>y\<close>.\<close>

function month_day :: "int \<Rightarrow> int \<Rightarrow> int \<Rightarrow> int \<times> int" where
  "month_day y m k =
     (if m < 12 \<and> days_in_month y m \<le> k then month_day y (m + 1) (k - days_in_month y m)
      else (m, k + 1))"
  by pat_completeness auto
termination
  by (relation "measure (\<lambda>(y, m, k). nat (12 - m))") auto

declare month_day.simps [simp del]

text \<open>The number of days from the first day of month \<open>m\<close> to the end of year \<open>y\<close>.\<close>

function days_left :: "int \<Rightarrow> int \<Rightarrow> int" where
  "days_left y m =
     (if m < 12 then days_in_month y m + days_left y (m + 1) else days_in_month y m)"
  by pat_completeness auto
termination
  by (relation "measure (\<lambda>(y, m). nat (12 - m))") auto

declare days_left.simps [simp del]

text \<open>The date that lies \<open>k\<close> days after 1 January of year \<open>y\<close>.\<close>

function civil :: "int \<Rightarrow> int \<Rightarrow> date" where
  "civil y k =
     (if days_in_year y \<le> k then civil (y + 1) (k - days_in_year y)
      else (y, month_day y 1 k))"
  by pat_completeness auto
termination
  by (relation "measure (\<lambda>(y, k). nat k)") (auto simp add: days_in_year_def split: if_splits)

declare civil.simps [simp del]

text \<open>
  \<open>pd.to_datetime(ms, unit='ms', utc=True).tz_localize(None)\<close>: a timestamp counts
  nanoseconds in 64 bits, so it exists only for
  \<open>-9223372036854 \<le> ms \<le> 9223372036854\<close>; its date is the one \<open>ms div 86400000\<close> days
  after 1 January 1970, which is 135140 days after 1 January 1600.
\<close>

definition to_datetime :: "int \<Rightarrow> error + date" where
  "to_datetime ms =
     (if - 9223372036854 \<le> ms \<and> ms \<le> 9223372036854
      then Inr (civil 1600 (ms div 86400000 + 135140))
      else Inl OutOfBoundsDatetime)"

text \<open>\<open>int(date.strftime('%Y%m%d'))\<close> for a year of four digits.\<close>

definition yyyymmdd :: "date \<Rightarrow> int" where
  "yyyymmdd date = (case date of (y, m, d) \<Rightarrow> y * 10000 + m * 100 + d)"

section \<open>Raster of break dates\<close>

text \<open>
  The raster is the list of its lines, from north to south, each with one value per
  column. \<open>np.full((height, width), -9999)\<close> refuses a negative dimension.
\<close>

type_synonym raster = "int list list"

definition np_full :: "int \<Rightarrow> int \<Rightarrow> int \<Rightarrow> error + raster" where
  "np_full h w v =
     (if h < 0 \<or> w < 0 then Inl ValueError else Inr (replicate (nat h) (replicate (nat w) v)))"

text \<open>\<open>tbreak_array[y_idx, x_idx] = v\<close> for indices inside the array.\<close>

definition set_cell :: "raster \<Rightarrow> int \<Rightarrow> int \<Rightarrow> int \<Rightarrow> raster" where
  "set_cell tbreak_array yi xi v = tbreak_array[nat yi := (tbreak_array ! nat yi)[nat xi := v]]"

fun iterrows :: "raster_params \<Rightarrow> row list \<Rightarrow> raster \<Rightarrow> error + raster" where
  "iterrows ps [] tbreak_array = Inr tbreak_array"
| "iterrows ps (r # rows) tbreak_array =
     (if 0 \<le> x_idx ps r \<and> x_idx ps r < width ps \<and> 0 \<le> y_idx ps r \<and> y_idx ps r < height ps
      then
        (case tBreak r of
           None \<Rightarrow> iterrows ps rows tbreak_array
         | Some ms \<Rightarrow>
             (case to_datetime ms of
                Inl e \<Rightarrow> Inl e
              | Inr date_obj \<Rightarrow>
                  iterrows ps rows
                    (set_cell tbreak_array (y_idx ps r) (x_idx ps r) (yyyymmdd date_obj))))
      else iterrows ps rows tbreak_array)"

definition create_raster_array_utm :: "row list \<Rightarrow> raster_params \<Rightarrow> error + raster" where
  "create_raster_array_utm gdf raster_params =
     (case np_full (height raster_params) (width raster_params) (- 9999) of
        Inl e \<Rightarrow> Inl e
      | Inr tbreak_array \<Rightarrow> iterrows raster_params gdf tbreak_array)"

text \<open>The rows that write into the cell of line \<open>yi\<close> and column \<open>xi\<close>.\<close>

definition writes_cell :: "raster_params \<Rightarrow> int \<Rightarrow> int \<Rightarrow> row \<Rightarrow> bool" where
  "writes_cell ps yi xi r \<longleftrightarrow> tBreak r \<noteq> None \<and> y_idx ps r = yi \<and> x_idx ps r = xi"

text \<open>
  The break of the last row, in frame order, that writes into the cell of line \<open>yi\<close> and
  column \<open>xi\<close>.
\<close>

fun last_write :: "raster_params \<Rightarrow> int \<Rightarrow> int \<Rightarrow> row list \<Rightarrow> int option" where
  "last_write ps yi xi [] = None"
| "last_write ps yi xi (r # rows) =
     (case last_write ps yi xi rows of
        Some ms \<Rightarrow> Some ms
      | None \<Rightarrow> if writes_cell ps yi xi r then tBreak r else None)"

text \<open>The range of milliseconds for which a timestamp exists.\<close>

definition representable :: "int \<Rightarrow> bool" where
  "representable ms \<longleftrightarrow> - 9223372036854 \<le> ms \<and> ms \<le> 9223372036854"

text \<open>The centre of the cell of column \<open>xi\<close> and of the cell of line \<open>yi\<close>.\<close>

definition cell_centre_x :: "raster_params \<Rightarrow> int \<Rightarrow> real" where
  "cell_centre_x ps xi =
     (case bounds ps of (min_x, min_y, max_x, max_y) \<Rightarrow>
        min_x + fst (resolution ps) * (of_int xi + 1 / 2))"

definition cell_centre_y :: "raster_params \<Rightarrow> int \<Rightarrow> real" where
  "cell_centre_y ps yi =
     (case bounds ps of (min_x, min_y, max_x, max_y) \<Rightarrow>
        max_y - snd (resolution ps) * (of_int yi + 1 / 2))"

section \<open>Style file\<close>

text \<open>
  \<open>gdf[~pd.isna(gdf['tBreak'])]['tBreak'].apply(...)\<close>: the timestamps of the non-null
  breaks, in frame order; the first break without a timestamp raises.
\<close>

fun valid_dates :: "row list \<Rightarrow> error + date list" where
  "valid_dates [] = Inr []"
| "valid_dates (r # gdf) =
     (case tBreak r of
        None \<Rightarrow> valid_dates gdf
      | Some ms \<Rightarrow>
          (case to_datetime ms of
             Inl e \<Rightarrow> Inl e
           | Inr date \<Rightarrow>
               (case valid_dates gdf of
                  Inl e \<Rightarrow> Inl e
                | Inr dates \<Rightarrow> Inr (date # dates))))"

text \<open>
  The dictionary \<open>dates_by_year\<close> is the list of its keys, in order of insertion, each with
  its list of dates. One turn of the grouping loop adds the key with an empty list if it
  is absent and appends the date to the key's list.
\<close>

type_synonym year_dict = "(int \<times> int list) list"

fun append_date :: "int \<Rightarrow> int \<Rightarrow> year_dict \<Rightarrow> year_dict" where
  "append_date year date_int [] = [(year, [date_int])]"
| "append_date year date_int ((y, ds) # dates_by_year) =
     (if y = year then (y, ds @ [date_int]) # dates_by_year
      else (y, ds) # append_date year date_int dates_by_year)"

definition group_by_year :: "date list \<Rightarrow> year_dict" where
  "group_by_year dates =
     fold (\<lambda>date dates_by_year. append_date (fst date) (yyyymmdd date) dates_by_year) dates []"

text \<open>
  \<open>datetime.strptime(str(date_value), '%Y%m%d')\<close> for a number of eight digits, the only
  ones that timestamps give: the first four digits are the year, the next two the month
  and the last two the day, and a \<open>ValueError\<close> is raised unless they form a date.
\<close>

definition strptime :: "int \<Rightarrow> error + date" where
  "strptime date_value =
     (let y = date_value div 10000; m = date_value div 100 mod 100; d = date_value mod 100
      in if 10000000 \<le> date_value \<and> date_value \<le> 99999999 \<and> 1 \<le> m \<and> m \<le> 12 \<and>
            1 \<le> d \<and> d \<le> days_in_month y m
         then Inr (y, m, d) else Inl ValueError)"

text \<open>
  A palette entry has a value and a label, the date of the value or the words
  \<open>No Data\<close>. Its colour, computed in floating point from a palette of matplotlib, decides
  neither which entries are written nor their order, and is left out.
\<close>

datatype label = DateLabel date | NoData

record palette_entry =
  entry_value :: int
  entry_label :: label

fun year_entries :: "int list \<Rightarrow> error + palette_entry list" where
  "year_entries [] = Inr []"
| "year_entries (date_value # year_dates) =
     (case strptime date_value of
        Inl e \<Rightarrow> Inl e
      | Inr date_obj \<Rightarrow>
          (case year_entries year_dates of
             Inl e \<Rightarrow> Inl e
           | Inr entries \<Rightarrow>
               Inr (\<lparr>entry_value = date_value, entry_label = DateLabel date_obj\<rparr> # entries)))"

fun for_years :: "year_dict \<Rightarrow> int list \<Rightarrow> error + palette_entry list" where
  "for_years dates_by_year [] = Inr []"
| "for_years dates_by_year (year # years) =
     (case map_of dates_by_year year of
        None \<Rightarrow> Inl KeyError
      | Some ds \<Rightarrow>
          (case year_entries (sort (remdups ds)) of
             Inl e \<Rightarrow> Inl e
           | Inr entries \<Rightarrow>
               (case for_years dates_by_year years of
                  Inl e \<Rightarrow> Inl e
                | Inr later \<Rightarrow> Inr (entries @ later))))"

text \<open>The palette entries of the written file, in the order of the file.\<close>

definition create_qgis_style_file :: "row list \<Rightarrow> error + palette_entry list" where
  "create_qgis_style_file gdf =
     (case valid_dates gdf of
        Inl e \<Rightarrow> Inl e
      | Inr dates \<Rightarrow>
          (let dates_by_year = group_by_year dates;
               years = sort (map fst dates_by_year)
           in case for_years dates_by_year years of
                Inl e \<Rightarrow> Inl e
              | Inr entries \<Rightarrow>
                  Inr (entries @ [\<lparr>entry_value = - 9999, entry_label = NoData\<rparr>])))"

text \<open>The non-null breaks of the points, and the date of a break as an integer.\<close>

definition breaks :: "row list \<Rightarrow> int list" where
  "breaks gdf = concat (map (\<lambda>r. case tBreak r of None \<Rightarrow> [] | Some ms \<Rightarrow> [ms]) gdf)"

definition break_date :: "int \<Rightarrow> date" where
  "break_date ms = civil 1600 (ms div 86400000 + 135140)"

section \<open>Download pool and mosaic loop\<close>

text \<open>
  \<open>process_and_mosaic_images\<close> as a transition system. A future of the process pool is
  pending until a worker takes its task, running until the task returns, and then done;
  \<open>exportImageForSingleImage\<close> catches every exception of a download, so a future fails
  only when its worker process dies. The main process is in the submission loop with \<open>i\<close>
  tasks submitted, in the loop over \<open>future.result()\<close> at future \<open>j\<close>, at the exit of the
  \<open>with\<close> block, in the mosaic loop about to call \<open>combine_tiffs_to_mosaic\<close> for image \<open>i\<close>,
  after the loop, or left by an exception.
\<close>

datatype future = Pending | Running | Done | Failed

datatype location = Submitting nat | Waiting nat | Shutdown | Mosaic nat | Finished | Raised

record state =
  pc :: location
  futures :: "future list"

definition initial :: state where
  "initial = \<lparr>pc = Submitting 0, futures = []\<rparr>"

text \<open>
  The moves of the main process; \<open>n_tasks\<close> is the size of the image list read by
  \<open>process_images_in_parallel\<close> and \<open>num_images\<close> the one read by
  \<open>process_and_mosaic_images\<close>. \<open>future.result()\<close> returns only for a future that is done
  and raises for a failed one; leaving the \<open>with\<close> block waits for every future.
\<close>

definition main_steps :: "nat \<Rightarrow> nat \<Rightarrow> state \<Rightarrow> state list" where
  "main_steps n_tasks num_images s =
     (case pc s of
        Submitting i \<Rightarrow>
          if i < n_tasks then [s\<lparr>pc := Submitting (Suc i), futures := futures s @ [Pending]\<rparr>]
          else [s\<lparr>pc := Waiting 0\<rparr>]
      | Waiting j \<Rightarrow>
          if j < length (futures s) then
            (case futures s ! j of
               Done \<Rightarrow> [s\<lparr>pc := Waiting (Suc j)\<rparr>]
             | Failed \<Rightarrow> [s\<lparr>pc := Raised\<rparr>]
             | _ \<Rightarrow> [])
          else [s\<lparr>pc := Shutdown\<rparr>]
      | Shutdown \<Rightarrow>
          if list_all (\<lambda>f. f = Done \<or> f = Failed) (futures s) then [s\<lparr>pc := Mosaic 0\<rparr>]
          else []
      | Mosaic i \<Rightarrow>
          if i < num_images then [s\<lparr>pc := Mosaic (Suc i)\<rparr>] else [s\<lparr>pc := Finished\<rparr>]
      | Finished \<Rightarrow> []
      | Raised \<Rightarrow> [])"

text \<open>
  The moves of the pool on future \<open>j\<close>: one of at most 24 workers takes a pending task, a
  running task returns, or the worker of a running task dies.
\<close>

definition worker_steps :: "state \<Rightarrow> nat \<Rightarrow> state list" where
  "worker_steps s j =
     (case futures s ! j of
        Pending \<Rightarrow>
          if length (filter (\<lambda>f. f = Running) (futures s)) < 24
          then [s\<lparr>futures := (futures s)[j := Running]\<rparr>] else []
      | Running \<Rightarrow>
          [s\<lparr>futures := (futures s)[j := Done]\<rparr>, s\<lparr>futures := (futures s)[j := Failed]\<rparr>]
      | _ \<Rightarrow> [])"

definition next_states :: "nat \<Rightarrow> nat \<Rightarrow> state \<Rightarrow> state list" where
  "next_states n_tasks num_images s =
     main_steps n_tasks num_images s @
     concat (map (worker_steps s) [0..<length (futures s)])"

inductive reachable :: "nat \<Rightarrow> nat \<Rightarrow> state \<Rightarrow> bool" for n_tasks num_images where
  start: "reachable n_tasks num_images initial"
| step: "reachable n_tasks num_images s \<Longrightarrow> s' \<in> set (next_states n_tasks num_images s)
         \<Longrightarrow> reachable n_tasks num_images s'"

text \<open>What holds of the futures at each location of the main process.\<close>

definition pool_invariant :: "nat \<Rightarrow> state \<Rightarrow> bool" where
  "pool_invariant n_tasks s \<longleftrightarrow>
     (case pc s of
        Submitting i \<Rightarrow> length (futures s) = i \<and> i \<le> n_tasks
      | Waiting j \<Rightarrow>
          length (futures s) = n_tasks \<and> j \<le> n_tasks \<and> (\<forall>k < j. futures s ! k = Done)
      | Raised \<Rightarrow> True
      | _ \<Rightarrow> futures s = replicate n_tasks Done)"

section \<open>Clipping the mosaic\<close>










section \<open>Raster geometry: helper lemmas\<close>

lemma np_round_ge_floor: "\<lfloor>t\<rfloor> \<le> np_round t"
  by (simp add: np_round_def Let_def)

lemma np_round_le_ceiling: "np_round t \<le> \<lceil>t\<rceil>"
  unfolding np_round_def Let_def by (auto simp: ceiling_altdef)

lemma np_round_nonneg: "0 \<le> t \<Longrightarrow> 0 \<le> np_round t"
  using np_round_ge_floor [of t] by (simp add: order_trans [OF _ np_round_ge_floor])

lemma column_min_Some: "column_min vs = Some m \<Longrightarrow> m = Min (set vs)"
proof (cases vs)
  case Nil
  then show "column_min vs = Some m \<Longrightarrow> m = Min (set vs)" by simp
next
  case (Cons a list)
  then show "column_min vs = Some m \<Longrightarrow> m = Min (set vs)"
    using Min.set_eq_fold [of a list] by simp
qed

lemma column_max_Some: "column_max vs = Some m \<Longrightarrow> m = Max (set vs)"
proof (cases vs)
  case Nil
  then show "column_max vs = Some m \<Longrightarrow> m = Max (set vs)" by simp
next
  case (Cons a list)
  then show "column_max vs = Some m \<Longrightarrow> m = Max (set vs)"
    using Max.set_eq_fold [of a list] by simp
qed

lemma params_of_gdf:
  assumes "calculate_raster_parameters_utm gdf = Inr ps"
  shows "gdf \<noteq> [] \<and>
         width ps = \<lceil>(Max (set (map x_coord gdf)) - Min (set (map x_coord gdf))) / 10\<rceil> + 1 \<and>
         height ps = \<lceil>(Max (set (map y_coord gdf)) - Min (set (map y_coord gdf))) / 10\<rceil> + 1 \<and>
         resolution ps = (10, 10) \<and>
         bounds ps = (Min (set (map x_coord gdf)) - 5, Min (set (map y_coord gdf)) - 5,
                      Max (set (map x_coord gdf)) + 5, Max (set (map y_coord gdf)) + 5)"
proof (cases gdf)
  case Nil
  with assms show ?thesis by (simp add: calculate_raster_parameters_utm_def)
next
  case (Cons r rs)
  have w: "\<lceil>(10 + d) / 10\<rceil> = \<lceil>d / 10\<rceil> + 1" for d :: real
  proof -
    have "(10 + d) / 10 = d / 10 + 1" by (simp add: field_simps)
    then show ?thesis by (simp only: ceiling_add_one)
  qed
  from assms Cons show ?thesis
    using Min.set_eq_fold [of "x_coord r" "map x_coord rs"]
          Min.set_eq_fold [of "y_coord r" "map y_coord rs"]
          Max.set_eq_fold [of "x_coord r" "map x_coord rs"]
          Max.set_eq_fold [of "y_coord r" "map y_coord rs"]
    by (auto simp: calculate_raster_parameters_utm_def Let_def w)
qed

lemma idx_bounds:
  fixes lo hi v :: real
  assumes "lo \<le> v" "v \<le> hi"
  shows "0 \<le> np_round ((v - (lo - 5)) / 10 - 1 / 2) \<and>
         np_round ((v - (lo - 5)) / 10 - 1 / 2) < \<lceil>(hi - lo) / 10\<rceil> + 1 \<and>
         0 \<le> np_round ((hi + 5 - v) / 10 - 1 / 2) \<and>
         np_round ((hi + 5 - v) / 10 - 1 / 2) < \<lceil>(hi - lo) / 10\<rceil> + 1"
proof -
  have e1: "(v - (lo - 5)) / 10 - 1 / 2 = (v - lo) / 10" by (simp add: field_simps)
  have e2: "(hi + 5 - v) / 10 - 1 / 2 = (hi - v) / 10" by (simp add: field_simps)
  have a: "0 \<le> np_round ((v - lo) / 10)" using assms by (intro np_round_nonneg) simp
  have b: "0 \<le> np_round ((hi - v) / 10)" using assms by (intro np_round_nonneg) simp
  have "np_round ((v - lo) / 10) \<le> \<lceil>(v - lo) / 10\<rceil>" by (rule np_round_le_ceiling)
  also have "\<dots> \<le> \<lceil>(hi - lo) / 10\<rceil>" using assms by (intro ceiling_mono) simp
  finally have c: "np_round ((v - lo) / 10) < \<lceil>(hi - lo) / 10\<rceil> + 1" by simp
  have "np_round ((hi - v) / 10) \<le> \<lceil>(hi - v) / 10\<rceil>" by (rule np_round_le_ceiling)
  also have "\<dots> \<le> \<lceil>(hi - lo) / 10\<rceil>" using assms by (intro ceiling_mono) simp
  finally have d: "np_round ((hi - v) / 10) < \<lceil>(hi - lo) / 10\<rceil> + 1" by simp
  from a b c d show ?thesis unfolding e1 e2 by simp
qed

text \<open>
  C6. With the parameters computed from a dataset, every point whose coordinates lie
  between the dataset's minimum and maximum coordinates gets cell indices inside the
  raster: \<open>0 \<le> x_idx < width\<close> and \<open>0 \<le> y_idx < height\<close>. The in-bounds guard of
  the raster loop therefore holds for it and its write falls inside the array.
\<close>

theorem indices_within_raster:
  assumes "calculate_raster_parameters_utm gdf = Inr ps"
    and "Min (set (map x_coord gdf)) \<le> x_coord p" "x_coord p \<le> Max (set (map x_coord gdf))"
    and "Min (set (map y_coord gdf)) \<le> y_coord p" "y_coord p \<le> Max (set (map y_coord gdf))"
  shows "0 \<le> x_idx ps p \<and> x_idx ps p < width ps \<and> 0 \<le> y_idx ps p \<and> y_idx ps p < height ps"
  using params_of_gdf [OF assms(1)] idx_bounds [OF assms(2,3)] idx_bounds [OF assms(4,5)]
  by (simp add: x_idx_def y_idx_def)


theorem indices_within_raster_witness:
  "calculate_raster_parameters_utm
     [\<lparr>x_coord = 500005, y_coord = 4500005, tBreak = Some 1600000000000\<rparr>,
      \<lparr>x_coord = 500025, y_coord = 4500015, tBreak = None\<rparr>]
   = Inr \<lparr>width = 3, height = 2, resolution = (10, 10),
            bounds = (500000, 4500000, 500030, 4500020)\<rparr> \<and>
   x_idx \<lparr>width = 3, height = 2, resolution = (10, 10),
            bounds = (500000, 4500000, 500030, 4500020)\<rparr>
         \<lparr>x_coord = 500025, y_coord = 4500015, tBreak = None\<rparr> < 3"
proof -
  let ?p = "\<lparr>x_coord = 500005, y_coord = 4500005, tBreak = Some 1600000000000\<rparr>"
  let ?q = "\<lparr>x_coord = 500025, y_coord = 4500015, tBreak = None\<rparr>"
  let ?ps = "\<lparr>width = 3, height = 2, resolution = (10, 10),
               bounds = (500000, 4500000, 500030, 4500020)\<rparr>"
  have h: "calculate_raster_parameters_utm [?p, ?q] = Inr ?ps"
    by (simp add: calculate_raster_parameters_utm_def)
  have "0 \<le> x_idx ?ps ?q \<and> x_idx ?ps ?q < width ?ps \<and>
        0 \<le> y_idx ?ps ?q \<and> y_idx ?ps ?q < height ?ps"
    by (rule indices_within_raster [OF h]) simp_all
  with h show ?thesis by simp
qed

section \<open>Break selection: helper lemmas\<close>

lemma mset_insert_desc: "mset (insert_desc p qs) = add_mset p (mset qs)"
  by (induction qs) simp_all

lemma mset_sort_desc: "mset (sort_desc ps) = mset ps"
  unfolding sort_desc_def by (induction ps) (simp_all add: mset_insert_desc)

lemma set_sort_desc: "set (sort_desc ps) = set ps"
  using mset_sort_desc [of ps] by (metis set_mset_mset)

lemma length_sort_desc: "length (sort_desc ps) = length ps"
  using mset_sort_desc [of ps] by (metis size_mset)

lemma set_insert_desc: "set (insert_desc p qs) = insert p (set qs)"
  using mset_insert_desc [of p qs] by (metis set_mset_add_mset_insert set_mset_mset)

lemma descending_insert_desc:
  "sorted_wrt (\<lambda>a b. tBreak (snd b) \<le> tBreak (snd a)) qs \<Longrightarrow>
   sorted_wrt (\<lambda>a b. tBreak (snd b) \<le> tBreak (snd a)) (insert_desc p qs)"
  by (induction qs) (auto simp: set_insert_desc)

lemma descending_sort_desc:
  "sorted_wrt (\<lambda>a b. tBreak (snd b) \<le> tBreak (snd a)) (sort_desc ps)"
  unfolding sort_desc_def by (induction ps) (simp_all add: descending_insert_desc)

lemma values_sort_desc:
  "map (\<lambda>p. tBreak (snd p)) (sort_desc ps) = rev (sort (map (\<lambda>p. tBreak (snd p)) ps))"
proof -
  let ?k = "\<lambda>p :: labelled. tBreak (snd p)"
  have "sorted_wrt (\<lambda>a b. b \<le> a) (map ?k (sort_desc ps))"
    using descending_sort_desc [of ps] by (simp add: sorted_wrt_map)
  then have s: "sorted (rev (map ?k (sort_desc ps)))"
    by (simp add: sorted_wrt_rev)
  have "mset (rev (map ?k (sort_desc ps))) = mset (map ?k ps)"
    by (simp add: mset_sort_desc)
  then have "sort (map ?k ps) = rev (map ?k (sort_desc ps))"
    using s by (rule properties_for_sort)
  then show ?thesis by simp
qed

lemma frame_labels: "map fst (zip [0..<length grp] grp) = [0..<length grp]"
  by simp

lemma frame_rows: "map snd (zip [0..<length grp] grp) = grp"
  by simp

lemma frame_member:
  "p \<in> set (zip [0..<length grp] grp) \<Longrightarrow> fst p < length grp \<and> snd p = grp ! fst p"
  by (cases p) (auto simp: set_zip)

lemma loc_member:
  assumes "distinct (map fst g)" "p \<in> set g"
  shows "loc g (fst p) = Inr (snd p)"
proof -
  from assms have "map_of g (fst p) = Some (snd p)"
    by (cases p) (simp add: map_of_is_SomeI)
  then show ?thesis by (simp add: loc_def)
qed

lemma loc_Inr_member: "loc g l = Inr r \<Longrightarrow> (l, r) \<in> set g"
  by (auto simp: loc_def split: option.splits dest: map_of_SomeD)

lemma filter_pixel_group_unfold:
  "filter_pixel_group grp s e =
     (let g = filter (\<lambda>p. (\<forall>b. s = Some b \<longrightarrow> ge_ms (tBreak (snd p)) b) \<and>
                          (\<forall>b. e = Some b \<longrightarrow> le_ms (tBreak (snd p)) b))
                (zip [0..<length grp] grp)
      in if (s \<noteq> None \<or> e \<noteq> None) \<and> g = [] then Inr None
         else if length g = 1 then Inr (Some (snd (hd g)))
         else (case nlargest 2 g of
                 [] \<Rightarrow> Inl IndexError
               | largest \<Rightarrow> (case loc g (fst (last largest)) of
                                Inl err \<Rightarrow> Inl err
                              | Inr r \<Rightarrow> Inr (Some r))))"
  by (cases s; cases e) (simp_all add: filter_pixel_group_def Let_def)

lemma selection_result:
  assumes "(if length g = 1 then Inr (Some (snd (hd g)))
            else (case nlargest 2 g of
                    [] \<Rightarrow> Inl IndexError
                  | largest \<Rightarrow> (case loc g (fst (last largest)) of
                                   Inl err \<Rightarrow> Inl err
                                 | Inr r \<Rightarrow> Inr (Some r)))) = Inr res"
  shows "\<exists>p \<in> set g. res = Some (snd p)"
proof (cases "length g = 1")
  case True
  then have "g \<noteq> []" by auto
  then have "hd g \<in> set g" by simp
  with True assms show ?thesis by auto
next
  case False
  with assms obtain l r where "loc g l = Inr r" "res = Some r"
    by (auto split: list.splits sum.splits)
  then show ?thesis using loc_Inr_member [of g l r] by force
qed

section \<open>Break selection: verified properties\<close>

text \<open>
  C1. Without date bounds, a group of exactly one row yields that row unchanged, and a
  group of two or more rows yields one of its rows, whose \<open>tBreak\<close> is the second
  element of the group's \<open>tBreak\<close> values in descending order (nulls last).
\<close>

theorem filter_pixel_group_second_highest:
  "(\<forall>r. grp = [r] \<longrightarrow> filter_pixel_group grp None None = Inr (Some r)) \<and>
   (2 \<le> length grp \<longrightarrow>
      (\<exists>i < length grp.
          filter_pixel_group grp None None = Inr (Some (grp ! i)) \<and>
          tBreak (grp ! i) = rev (sort (map tBreak grp)) ! 1))"
proof (intro conjI allI impI)
  fix r assume "grp = [r]"
  then show "filter_pixel_group grp None None = Inr (Some r)"
    by (simp add: filter_pixel_group_def)
next
  assume len: "2 \<le> length grp"
  let ?frame = "zip [0..<length grp] grp"
  let ?s = "sort_desc ?frame"
  have ls: "length ?s = length grp" by (simp add: length_sort_desc)
  with len obtain a b rest where s: "?s = a # b # rest"
    by (cases ?s; cases "tl ?s") auto
  then have top: "nlargest 2 ?frame = [a, b]" by (simp add: nlargest_def)
  from s have "b \<in> set ?s" by simp
  then have b: "b \<in> set ?frame" by (simp only: set_sort_desc)
  then have i: "fst b < length grp" "snd b = grp ! fst b"
    using frame_member [of b grp] by simp_all
  have "distinct (map fst ?frame)" by simp
  then have l: "loc ?frame (fst b) = Inr (snd b)" using b by (rule loc_member)
  from len have "length grp \<noteq> Suc 0" by simp
  then have res: "filter_pixel_group grp None None = Inr (Some (grp ! fst b))"
    using top l i(2) by (simp add: filter_pixel_group_def Let_def)
  have "map (\<lambda>p. tBreak (snd p)) ?s = rev (sort (map (\<lambda>p. tBreak (snd p)) ?frame))"
    by (rule values_sort_desc)
  moreover have "map (\<lambda>p. tBreak (snd p)) ?frame = map tBreak (map snd ?frame)"
    by (simp only: map_map comp_def)
  ultimately have "rev (sort (map tBreak grp)) = map (\<lambda>p. tBreak (snd p)) ?s"
    by (simp only: frame_rows)
  then have "rev (sort (map tBreak grp)) ! 1 = tBreak (snd b)"
    by (simp add: s)
  with res i show "\<exists>i < length grp.
          filter_pixel_group grp None None = Inr (Some (grp ! i)) \<and>
          tBreak (grp ! i) = rev (sort (map tBreak grp)) ! 1"
    by auto
qed

theorem filter_pixel_group_second_highest_witness:
  "filter_pixel_group [\<lparr>x_coord = 500005, y_coord = 4500005, tBreak = Some 1577836800000\<rparr>]
      None None
     = Inr (Some \<lparr>x_coord = 500005, y_coord = 4500005, tBreak = Some 1577836800000\<rparr>) \<and>
   (2::nat) \<le> length [\<lparr>x_coord = 500005, y_coord = 4500005, tBreak = Some 1577836800000\<rparr>,
                      \<lparr>x_coord = 500005, y_coord = 4500005, tBreak = Some 1640995200000\<rparr>,
                      \<lparr>x_coord = 500005, y_coord = 4500005, tBreak = Some 1609459200000\<rparr>] \<and>
   (\<exists>r. filter_pixel_group
          [\<lparr>x_coord = 500005, y_coord = 4500005, tBreak = Some 1577836800000\<rparr>,
           \<lparr>x_coord = 500005, y_coord = 4500005, tBreak = Some 1640995200000\<rparr>,
           \<lparr>x_coord = 500005, y_coord = 4500005, tBreak = Some 1609459200000\<rparr>]
          None None = Inr (Some r) \<and> tBreak r = Some 1609459200000)"
proof -
  let ?a = "\<lparr>x_coord = 500005, y_coord = 4500005, tBreak = Some 1577836800000\<rparr>"
  let ?b = "\<lparr>x_coord = 500005, y_coord = 4500005, tBreak = Some 1640995200000\<rparr>"
  let ?c = "\<lparr>x_coord = 500005, y_coord = 4500005, tBreak = Some 1609459200000\<rparr>"
  have one: "filter_pixel_group [?a] None None = Inr (Some ?a)"
    using filter_pixel_group_second_highest [of "[?a]"] by simp
  have len: "(2::nat) \<le> length [?a, ?b, ?c]" by simp
  have v: "rev (sort (map tBreak [?a, ?b, ?c])) ! 1 = Some 1609459200000" by simp
  from len filter_pixel_group_second_highest [of "[?a, ?b, ?c]"]
  obtain i where "filter_pixel_group [?a, ?b, ?c] None None = Inr (Some ([?a, ?b, ?c] ! i))"
    and "tBreak ([?a, ?b, ?c] ! i) = rev (sort (map tBreak [?a, ?b, ?c])) ! 1"
    by blast
  with v have "\<exists>r. filter_pixel_group [?a, ?b, ?c] None None = Inr (Some r) \<and>
                  tBreak r = Some 1609459200000"
    by (intro exI [of _ "[?a, ?b, ?c] ! i"]) simp
  with one len show ?thesis by blast
qed

text \<open>
  C5. The result is \<open>None\<close> exactly when a date bound is given and no row of the group
  has a \<open>tBreak\<close> within the given bounds; a row returned under bounds is a row of the
  group whose \<open>tBreak\<close> is at least the start bound and at most the end bound, whichever
  are given.
\<close>

theorem filter_pixel_group_none_iff:
  "(filter_pixel_group grp s e = Inr None \<longleftrightarrow>
      (s \<noteq> None \<or> e \<noteq> None) \<and>
      \<not> (\<exists>r \<in> set grp. \<exists>v. tBreak r = Some v \<and>
             (\<forall>b. s = Some b \<longrightarrow> b \<le> v) \<and> (\<forall>b. e = Some b \<longrightarrow> v \<le> b))) \<and>
   (\<forall>r. filter_pixel_group grp s e = Inr (Some r) \<longrightarrow> (s \<noteq> None \<or> e \<noteq> None) \<longrightarrow>
      r \<in> set grp \<and>
      (\<exists>v. tBreak r = Some v \<and>
           (\<forall>b. s = Some b \<longrightarrow> b \<le> v) \<and> (\<forall>b. e = Some b \<longrightarrow> v \<le> b)))"
proof -
  let ?ok = "\<lambda>p :: labelled. (\<forall>b. s = Some b \<longrightarrow> ge_ms (tBreak (snd p)) b) \<and>
                             (\<forall>b. e = Some b \<longrightarrow> le_ms (tBreak (snd p)) b)"
  define g where "g = filter ?ok (zip [0..<length grp] grp)"
  define sel where "sel =
             (if length g = 1 then Inr (Some (snd (hd g)))
              else (case nlargest 2 g of
                      [] \<Rightarrow> Inl IndexError
                    | largest \<Rightarrow> (case loc g (fst (last largest)) of
                                     Inl err \<Rightarrow> Inl err
                                   | Inr r \<Rightarrow> Inr (Some r))))"
  have unf: "filter_pixel_group grp s e =
               (if (s \<noteq> None \<or> e \<noteq> None) \<and> g = [] then Inr None else sel)"
    by (simp only: filter_pixel_group_unfold Let_def g_def sel_def)
  have sel: "sel = Inr res \<Longrightarrow> \<exists>p \<in> set g. res = Some (snd p)" for res
    unfolding sel_def by (rule selection_result)
  have rows: "set grp = snd ` set (zip [0..<length grp] grp)"
    using frame_rows [of grp] by (metis set_map)
  have within: "(\<exists>v. tBreak r = Some v \<and>
                   (\<forall>b. s = Some b \<longrightarrow> b \<le> v) \<and> (\<forall>b. e = Some b \<longrightarrow> v \<le> b))"
    if "s \<noteq> None \<or> e \<noteq> None" "?ok (l, r)" for l r
    using that by (cases "tBreak r") (auto simp: ge_ms_def le_ms_def)
  have within': "?ok (l, r)"
    if "tBreak r = Some v" "\<forall>b. s = Some b \<longrightarrow> b \<le> v" "\<forall>b. e = Some b \<longrightarrow> v \<le> b" for l r v
    using that by (simp add: ge_ms_def le_ms_def)
  have empty_iff: "g = [] \<longleftrightarrow> (\<forall>p \<in> set (zip [0..<length grp] grp). \<not> ?ok p)"
    unfolding g_def by (simp only: filter_empty_conv)
  have none: "filter_pixel_group grp s e = Inr None \<longleftrightarrow> (s \<noteq> None \<or> e \<noteq> None) \<and> g = []"
  proof
    assume a: "filter_pixel_group grp s e = Inr None"
    show "(s \<noteq> None \<or> e \<noteq> None) \<and> g = []"
    proof (rule ccontr)
      assume "\<not> ((s \<noteq> None \<or> e \<noteq> None) \<and> g = [])"
      with a unf have "sel = Inr None" by (auto split: if_splits)
      from sel [OF this] show False by simp
    qed
  next
    assume "(s \<noteq> None \<or> e \<noteq> None) \<and> g = []"
    with unf show "filter_pixel_group grp s e = Inr None" by simp
  qed
  have part1: "filter_pixel_group grp s e = Inr None \<longleftrightarrow>
      (s \<noteq> None \<or> e \<noteq> None) \<and>
      \<not> (\<exists>r \<in> set grp. \<exists>v. tBreak r = Some v \<and>
             (\<forall>b. s = Some b \<longrightarrow> b \<le> v) \<and> (\<forall>b. e = Some b \<longrightarrow> v \<le> b))"
  proof (cases "s \<noteq> None \<or> e \<noteq> None")
    case False
    with none show ?thesis by simp
  next
    case True
    have "g = [] \<longleftrightarrow>
            \<not> (\<exists>r \<in> set grp. \<exists>v. tBreak r = Some v \<and>
             (\<forall>b. s = Some b \<longrightarrow> b \<le> v) \<and> (\<forall>b. e = Some b \<longrightarrow> v \<le> b))"
    proof
      assume g: "g = []"
      show "\<not> (\<exists>r \<in> set grp. \<exists>v. tBreak r = Some v \<and>
             (\<forall>b. s = Some b \<longrightarrow> b \<le> v) \<and> (\<forall>b. e = Some b \<longrightarrow> v \<le> b))"
      proof
        assume "\<exists>r \<in> set grp. \<exists>v. tBreak r = Some v \<and>
             (\<forall>b. s = Some b \<longrightarrow> b \<le> v) \<and> (\<forall>b. e = Some b \<longrightarrow> v \<le> b)"
        then obtain r v where r: "r \<in> set grp" "tBreak r = Some v"
            "\<forall>b. s = Some b \<longrightarrow> b \<le> v" "\<forall>b. e = Some b \<longrightarrow> v \<le> b" by blast
        from r(1) rows obtain l where "(l, r) \<in> set (zip [0..<length grp] grp)" by force
        moreover have "?ok (l, r)" using r(2-4) by (rule within')
        ultimately show False using g empty_iff by blast
      qed
    next
      assume n: "\<not> (\<exists>r \<in> set grp. \<exists>v. tBreak r = Some v \<and>
             (\<forall>b. s = Some b \<longrightarrow> b \<le> v) \<and> (\<forall>b. e = Some b \<longrightarrow> v \<le> b))"
      have "\<not> ?ok p" if "p \<in> set (zip [0..<length grp] grp)" for p
      proof
        assume ok: "?ok p"
        obtain l r where p: "p = (l, r)" by (cases p)
        from that p rows have "r \<in> set grp" by force
        moreover from within [OF True] ok p
        have "\<exists>v. tBreak r = Some v \<and>
             (\<forall>b. s = Some b \<longrightarrow> b \<le> v) \<and> (\<forall>b. e = Some b \<longrightarrow> v \<le> b)" by blast
        ultimately show False using n by blast
      qed
      with empty_iff show "g = []" by blast
    qed
    with none True show ?thesis by simp
  qed
  have part2: "r \<in> set grp \<and>
      (\<exists>v. tBreak r = Some v \<and>
           (\<forall>b. s = Some b \<longrightarrow> b \<le> v) \<and> (\<forall>b. e = Some b \<longrightarrow> v \<le> b))"
    if res: "filter_pixel_group grp s e = Inr (Some r)" and bd: "s \<noteq> None \<or> e \<noteq> None" for r
  proof -
    from res unf have "sel = Inr (Some r)"
      by (auto split: if_splits)
    from sel [OF this] obtain p where p: "p \<in> set g" "r = snd p" by auto
    obtain l where pl: "p = (l, r)" using p(2) by (cases p) simp
    from p(1) pl have mem: "(l, r) \<in> set (zip [0..<length grp] grp)" and ok: "?ok (l, r)"
      by (simp_all add: g_def)
    from mem rows have "r \<in> set grp" by force
    with within [OF bd ok] show ?thesis by blast
  qed
  from part1 part2 show ?thesis by blast
qed

theorem filter_pixel_group_none_iff_witness:
  "filter_pixel_group
     [\<lparr>x_coord = 500005, y_coord = 4500005, tBreak = Some 1577836800000\<rparr>,
      \<lparr>x_coord = 500005, y_coord = 4500005, tBreak = Some 1640995200000\<rparr>,
      \<lparr>x_coord = 500005, y_coord = 4500005, tBreak = Some 1609459200000\<rparr>]
     (Some 1672531200000) None = Inr None \<and>
   filter_pixel_group
     [\<lparr>x_coord = 500005, y_coord = 4500005, tBreak = Some 1577836800000\<rparr>,
      \<lparr>x_coord = 500005, y_coord = 4500005, tBreak = Some 1640995200000\<rparr>,
      \<lparr>x_coord = 500005, y_coord = 4500005, tBreak = Some 1609459200000\<rparr>]
     (Some 1600000000000) (Some 1650000000000)
     = Inr (Some \<lparr>x_coord = 500005, y_coord = 4500005, tBreak = Some 1609459200000\<rparr>) \<and>
   (\<exists>v. tBreak \<lparr>x_coord = 500005, y_coord = 4500005, tBreak = Some 1609459200000\<rparr> = Some v \<and>
        1600000000000 \<le> v \<and> v \<le> 1650000000000)"
proof -
  let ?a = "\<lparr>x_coord = 500005, y_coord = 4500005, tBreak = Some 1577836800000\<rparr>"
  let ?b = "\<lparr>x_coord = 500005, y_coord = 4500005, tBreak = Some 1640995200000\<rparr>"
  let ?c = "\<lparr>x_coord = 500005, y_coord = 4500005, tBreak = Some 1609459200000\<rparr>"
  have none: "filter_pixel_group [?a, ?b, ?c] (Some 1672531200000) None = Inr None"
    using filter_pixel_group_none_iff [of "[?a, ?b, ?c]" "Some 1672531200000" None] by simp
  have some: "filter_pixel_group [?a, ?b, ?c] (Some 1600000000000) (Some 1650000000000)
                = Inr (Some ?c)"
    by (simp add: filter_pixel_group_def ge_ms_def le_ms_def nlargest_def sort_desc_def
        loc_def upt_rec)
  have "\<exists>v. tBreak ?c = Some v \<and> 1600000000000 \<le> v \<and> v \<le> 1650000000000"
    using filter_pixel_group_none_iff
            [of "[?a, ?b, ?c]" "Some 1600000000000" "Some 1650000000000"] some
    by simp
  with none some show ?thesis by blast
qed


section \<open>Expanding list columns: helper lemmas\<close>

lemma map_of_set_column: "map_of (set_column n v df) = (map_of df)(n \<mapsto> v)"
  by (induction df) (auto simp: fun_eq_iff)

lemma names_set_column: "fst ` set (set_column n v df) = insert n (fst ` set df)"
proof -
  have "dom (map_of (set_column n v df)) = insert n (dom (map_of df))"
    by (simp add: map_of_set_column)
  then show ?thesis by (simp only: dom_map_of_conv_image_fst)
qed

lemma distinct_set_column:
  "distinct (map fst df) \<Longrightarrow> distinct (map fst (set_column n v df))"
proof (induction df)
  case Nil
  then show ?case by simp
next
  case (Cons c df)
  obtain m s where c: "c = (m, s)" by (cases c)
  from Cons have d: "distinct (map fst (set_column n v df))" and m: "m \<notin> fst ` set df"
    by (simp_all add: c)
  show ?case
  proof (cases "m = n")
    case True
    with Cons.prems show ?thesis by (simp add: c)
  next
    case False
    with m have "m \<notin> fst ` set (set_column n v df)" by (simp add: names_set_column)
    with d False show ?thesis by (simp add: c)
  qed
qed

lemma str_nat_unfold:
  "str_nat n = (if n < 10 then [''0123456789'' ! n]
                else str_nat (n div 10) @ [''0123456789'' ! (n mod 10)])"
  by (rule str_nat.simps)

lemma str_nat_not_Nil: "str_nat n \<noteq> []"
  by (subst str_nat_unfold) simp

lemma prefix_str_nat:
  "prefix t (str_nat n) \<Longrightarrow> t \<noteq> [] \<Longrightarrow> \<exists>k \<le> n. t = str_nat k \<and> (1 \<le> n \<longrightarrow> 1 \<le> k)"
proof (induction n arbitrary: t rule: str_nat.induct)
  case (1 n)
  show ?case
  proof (cases "n < 10")
    case True
    then have "str_nat n = [''0123456789'' ! n]" by (subst str_nat_unfold) simp
    with "1.prems" have "t = str_nat n" by (cases t) (auto simp: prefix_Cons)
    then show ?thesis by blast
  next
    case False
    then have u: "str_nat n = str_nat (n div 10) @ [''0123456789'' ! (n mod 10)]"
      by (subst str_nat_unfold) simp
    from "1.prems"(1) have "prefix t (str_nat (n div 10)) \<or> t = str_nat n"
      unfolding u by (auto simp: prefix_snoc)
    then show ?thesis
    proof
      assume "prefix t (str_nat (n div 10))"
      from "1.IH" [OF False this "1.prems"(2)]
      obtain k where k: "k \<le> n div 10" "t = str_nat k" "1 \<le> n div 10 \<longrightarrow> 1 \<le> k" by blast
      from False have "1 \<le> n div 10" by simp
      with k have "k \<le> n \<and> t = str_nat k \<and> 1 \<le> k" by simp
      then show ?thesis by blast
    next
      assume "t = str_nat n"
      then show ?thesis by blast
    qed
  qed
qed


lemma str_nat_small: "n < 10 \<Longrightarrow> str_nat n = [''0123456789'' ! n]"
  by (subst str_nat_unfold) simp

lemma str_nat_large:
  "\<not> n < 10 \<Longrightarrow> str_nat n = str_nat (n div 10) @ [''0123456789'' ! (n mod 10)]"
  by (subst str_nat_unfold) simp

lemma digit_char_inj:
  fixes a b :: nat
  assumes "''0123456789'' ! a = ''0123456789'' ! b" "a < 10" "b < 10"
  shows "a = b"
proof -
  have "distinct ''0123456789''" by simp
  moreover have "length ''0123456789'' = 10" by simp
  ultimately show ?thesis using assms by (simp only: nth_eq_iff_index_eq)
qed

lemma str_nat_inj: "str_nat n = str_nat m \<Longrightarrow> n = m"
proof (induction n arbitrary: m rule: str_nat.induct)
  case (1 n)
  show ?case
  proof (cases "n < 10")
    case True
    then have n: "str_nat n = [''0123456789'' ! n]" by (rule str_nat_small)
    have m: "m < 10"
    proof (rule ccontr)
      assume "\<not> m < 10"
      then have "str_nat m = str_nat (m div 10) @ [''0123456789'' ! (m mod 10)]"
        by (rule str_nat_large)
      with "1.prems" n have "str_nat (m div 10) = []" by simp
      then show False by (simp add: str_nat_not_Nil)
    qed
    then have "str_nat m = [''0123456789'' ! m]" by (rule str_nat_small)
    with "1.prems" n have "''0123456789'' ! n = ''0123456789'' ! m" by simp
    then show ?thesis using True m by (rule digit_char_inj)
  next
    case False
    then have n: "str_nat n = str_nat (n div 10) @ [''0123456789'' ! (n mod 10)]"
      by (rule str_nat_large)
    have m: "\<not> m < 10"
    proof
      assume "m < 10"
      then have "str_nat m = [''0123456789'' ! m]" by (rule str_nat_small)
      with "1.prems" n have "str_nat (n div 10) = []" by simp
      then show False by (simp add: str_nat_not_Nil)
    qed
    then have "str_nat m = str_nat (m div 10) @ [''0123456789'' ! (m mod 10)]"
      by (rule str_nat_large)
    with "1.prems" n have e: "str_nat (n div 10) = str_nat (m div 10)"
      and c: "''0123456789'' ! (n mod 10) = ''0123456789'' ! (m mod 10)" by simp_all
    from "1.IH" [OF False e] have d: "n div 10 = m div 10" .
    from c have "n mod 10 = m mod 10" by (rule digit_char_inj) simp_all
    with d show ?thesis by (metis div_mult_mod_eq)
  qed
qed

lemma generated_name_clash:
  assumes "c1 @ str_nat (Suc i) = c2 @ str_nat (Suc j)" "c1 \<noteq> c2"
  shows "(\<exists>k \<le> i. c2 = c1 @ str_nat (Suc k)) \<or> (\<exists>k \<le> j. c1 = c2 @ str_nat (Suc k))"
proof -
  from assms(1) obtain t where
    t: "(c1 = c2 @ t \<and> t @ str_nat (Suc i) = str_nat (Suc j)) \<or>
        (c1 @ t = c2 \<and> str_nat (Suc i) = t @ str_nat (Suc j))"
    by (auto simp: append_eq_append_conv2)
  from t assms(2) have ne: "t \<noteq> []" by auto
  from t show ?thesis
  proof
    assume a: "c1 = c2 @ t \<and> t @ str_nat (Suc i) = str_nat (Suc j)"
    then have "prefix t (str_nat (Suc j))" by (metis prefixI)
    from prefix_str_nat [OF this ne] obtain k where "k \<le> Suc j" "t = str_nat k" "1 \<le> k"
      by auto
    then have "k - 1 \<le> j \<and> c1 = c2 @ str_nat (Suc (k - 1))" using a by simp
    then show ?thesis by blast
  next
    assume a: "c1 @ t = c2 \<and> str_nat (Suc i) = t @ str_nat (Suc j)"
    then have "prefix t (str_nat (Suc i))" by (metis prefixI)
    from prefix_str_nat [OF this ne] obtain k where "k \<le> Suc i" "t = str_nat k" "1 \<le> k"
      by auto
    then have "k - 1 \<le> i \<and> c2 = c1 @ str_nat (Suc (k - 1))" using a by auto
    then show ?thesis by blast
  qed
qed

lemma generated_name_inj:
  "col @ str_nat (Suc i) = col @ str_nat (Suc j) \<Longrightarrow> i = j"
  using str_nat_inj [of "Suc i" "Suc j"] by simp

lemma generated_name_not_col: "col @ str_nat k \<noteq> col"
  by (simp add: str_nat_not_Nil)

lemma expand_column_Suc:
  "fold (\<lambda>i. set_column (col @ str_nat (i + 1)) (map (item i) s)) [0..<Suc k] dfe =
   set_column (col @ str_nat (Suc k)) (map (item k) s)
     (fold (\<lambda>i. set_column (col @ str_nat (i + 1)) (map (item i) s)) [0..<k] dfe)"
  by simp

lemma expand_fold_props:
  fixes dfe :: "'a dataframe" and col :: string and s :: "'a cell list"
  defines "E \<equiv> \<lambda>k. fold (\<lambda>i. set_column (col @ str_nat (i + 1)) (map (item i) s)) [0..<k] dfe"
  shows "(\<forall>i < k. map_of (E k) (col @ str_nat (Suc i)) = Some (map (item i) s)) \<and>
         (\<forall>n. (\<forall>i < k. n \<noteq> col @ str_nat (Suc i)) \<longrightarrow> map_of (E k) n = map_of dfe n) \<and>
         fst ` set (E k) = fst ` set dfe \<union> {col @ str_nat (Suc i) | i. i < k} \<and>
         (distinct (map fst dfe) \<longrightarrow> distinct (map fst (E k)))"
proof (induction k)
  case 0
  show ?case by (simp add: E_def)
next
  case (Suc k)
  have step: "E (Suc k) = set_column (col @ str_nat (Suc k)) (map (item k) s) (E k)"
    unfolding E_def by (rule expand_column_Suc)
  have a: "\<forall>i < Suc k. map_of (E (Suc k)) (col @ str_nat (Suc i)) = Some (map (item i) s)"
  proof (intro allI impI)
    fix i assume i: "i < Suc k"
    show "map_of (E (Suc k)) (col @ str_nat (Suc i)) = Some (map (item i) s)"
    proof (cases "i = k")
      case True
      then show ?thesis by (simp add: step map_of_set_column)
    next
      case False
      with i have "i < k" by simp
      with Suc have "map_of (E k) (col @ str_nat (Suc i)) = Some (map (item i) s)" by blast
      moreover from False have "col @ str_nat (Suc i) \<noteq> col @ str_nat (Suc k)"
        using generated_name_inj [of col i k] by blast
      ultimately show ?thesis by (simp add: step map_of_set_column)
    qed
  qed
  have b: "\<forall>n. (\<forall>i < Suc k. n \<noteq> col @ str_nat (Suc i)) \<longrightarrow>
               map_of (E (Suc k)) n = map_of dfe n"
  proof (intro allI impI)
    fix n assume n: "\<forall>i < Suc k. n \<noteq> col @ str_nat (Suc i)"
    then have "n \<noteq> col @ str_nat (Suc k)" and "\<forall>i < k. n \<noteq> col @ str_nat (Suc i)"
      by simp_all
    with Suc show "map_of (E (Suc k)) n = map_of dfe n"
      by (simp add: step map_of_set_column)
  qed
  have c: "fst ` set (E (Suc k)) = fst ` set dfe \<union> {col @ str_nat (Suc i) | i. i < Suc k}"
  proof -
    have "{col @ str_nat (Suc i) | i. i < Suc k} =
          insert (col @ str_nat (Suc k)) {col @ str_nat (Suc i) | i. i < k}"
      by (auto simp: less_Suc_eq)
    with Suc show ?thesis by (simp add: step names_set_column)
  qed
  have d: "distinct (map fst dfe) \<longrightarrow> distinct (map fst (E (Suc k)))"
    using Suc by (simp add: step distinct_set_column)
  from a b c d show ?case by blast
qed

lemma map_of_drop:
  "map_of (filter (\<lambda>c. fst c \<noteq> col) df) n = (if n = col then None else map_of df n)"
  by (induction df) auto

lemma names_drop: "fst ` set (filter (\<lambda>c. fst c \<noteq> col) df) = fst ` set df - {col}"
  by (induction df) auto

lemma distinct_drop:
  "distinct (map fst df) \<Longrightarrow> distinct (map fst (filter (\<lambda>c. fst c \<noteq> col) df))"
  by (simp add: distinct_map_filter)

lemma expand_step:
  fixes dfe :: "'a dataframe" and s :: "'a cell list" and m :: int
  assumes d: "distinct (map fst dfe)" and present: "col \<in> fst ` set dfe"
  defines "out \<equiv> filter (\<lambda>c. fst c \<noteq> col) (expand_column col s m dfe)"
  shows "drop_column col (expand_column col s m dfe) = Inr out"
    and "distinct (map fst out)"
    and "col \<notin> fst ` set out"
    and "\<forall>i < nat m. map_of out (col @ str_nat (Suc i)) = Some (map (item i) s)"
    and "\<forall>n. n \<noteq> col \<and> (\<forall>i < nat m. n \<noteq> col @ str_nat (Suc i)) \<longrightarrow> map_of out n = map_of dfe n"
    and "fst ` set out \<subseteq> fst ` set dfe \<union> {col @ str_nat (Suc i) | i. i < nat m}"
proof -
  let ?E = "expand_column col s m dfe"
  note p = expand_fold_props [of "nat m" col s dfe, folded expand_column_def]
  from p have names: "fst ` set ?E = fst ` set dfe \<union> {col @ str_nat (Suc i) | i. i < nat m}"
    by blast
  with present have "col \<in> fst ` set ?E" by blast
  then show "drop_column col ?E = Inr out" by (simp add: drop_column_def out_def)
  from p d have "distinct (map fst ?E)" by blast
  then show "distinct (map fst out)" unfolding out_def by (rule distinct_drop)
  show "col \<notin> fst ` set out" unfolding out_def by (simp only: names_drop) simp
  show "\<forall>i < nat m. map_of out (col @ str_nat (Suc i)) = Some (map (item i) s)"
    using p by (simp add: out_def map_of_drop str_nat_not_Nil)
  show "\<forall>n. n \<noteq> col \<and> (\<forall>i < nat m. n \<noteq> col @ str_nat (Suc i)) \<longrightarrow> map_of out n = map_of dfe n"
    using p by (simp add: out_def map_of_drop)
  show "fst ` set out \<subseteq> fst ` set dfe \<union> {col @ str_nat (Suc i) | i. i < nat m}"
    using names unfolding out_def by (simp only: names_drop) blast
qed

lemma for_prefixos_no_match:
  "\<not> (list_ex (\<lambda>pfx. prefix pfx col) prefixos \<and> list_ex is_list s) \<Longrightarrow>
   for_prefixos col s m prefixos dfe = Inr dfe"
  by (induction prefixos) auto

lemma for_prefixos_once:
  assumes "list_ex is_list s" "length (filter (\<lambda>pfx. prefix pfx col) prefixos) = 1"
  shows "for_prefixos col s m prefixos dfe = drop_column col (expand_column col s m dfe)"
  using assms(2)
proof (induction prefixos)
  case Nil
  then show ?case by simp
next
  case (Cons pfx prefixos)
  show ?case
  proof (cases "prefix pfx col")
    case True
    with Cons.prems have "filter (\<lambda>pfx. prefix pfx col) prefixos = []" by simp
    then have "\<not> list_ex (\<lambda>pfx. prefix pfx col) prefixos"
      by (simp add: filter_empty_conv list_ex_iff)
    then have "for_prefixos col s m prefixos df' = Inr df'" for df' :: "'a dataframe"
      by (simp add: for_prefixos_no_match)
    with True assms(1) show ?thesis by (simp split: sum.splits)
  next
    case False
    with Cons show ?thesis by simp
  qed
qed

lemma key_determines_column:
  "distinct (map fst df) \<Longrightarrow> a \<in> set df \<Longrightarrow> b \<in> set df \<Longrightarrow> fst a = fst b \<Longrightarrow> a = b"
  by (cases a; cases b) (auto dest: eq_key_imp_eq_value)

lemma columns_done_initial:
  "distinct (map fst df) \<Longrightarrow> columns_done df prefixos m [] df"
  by (auto simp: columns_done_def)

lemma columns_done_step:
  fixes df :: "'a dataframe"
  assumes wf: "distinct (map fst df)"
    and once: "\<forall>c \<in> set df. expands prefixos c \<longrightarrow>
                 length (filter (\<lambda>pfx. prefix pfx (fst c)) prefixos) \<le> 1"
    and fresh: "\<forall>c \<in> set df. expands prefixos c \<longrightarrow>
                 (\<forall>i < nat m. fst c @ str_nat (Suc i) \<notin> fst ` set df)"
    and split: "df = processed @ (col, s) # cols"
    and inv: "columns_done df prefixos m processed dfe"
  shows "\<exists>df'. for_prefixos col s m prefixos dfe = Inr df' \<and>
               columns_done df prefixos m (processed @ [(col, s)]) df'"
proof -
  from inv have d: "distinct (map fst dfe)"
    and done_cols: "\<forall>c \<in> set processed. expands prefixos c \<longrightarrow>
        fst c \<notin> fst ` set dfe \<and>
        (\<forall>i < nat m. map_of dfe (fst c @ str_nat (Suc i)) = Some (map (item i) (snd c)))"
    and kept: "\<forall>c \<in> set df. \<not> (expands prefixos c \<and> c \<in> set processed) \<longrightarrow>
        map_of dfe (fst c) = Some (snd c)"
    and names: "fst ` set dfe \<subseteq> fst ` set df \<union>
        {fst c @ str_nat (Suc i) | c i. c \<in> set processed \<and> expands prefixos c \<and> i < nat m}"
    unfolding columns_done_def by blast+
  have grow: "{fst c @ str_nat (Suc i) | c i. c \<in> set processed \<and> expands prefixos c \<and> i < nat m}
      \<subseteq> {fst c @ str_nat (Suc i) | c i.
           c \<in> set (processed @ [(col, s)]) \<and> expands prefixos c \<and> i < nat m}"
    by auto
  show ?thesis
  proof (cases "expands prefixos (col, s)")
  case False
  then have "for_prefixos col s m prefixos dfe = Inr dfe"
    by (simp add: expands_def for_prefixos_no_match)
  moreover have "columns_done df prefixos m (processed @ [(col, s)]) dfe"
    unfolding columns_done_def
  proof (intro conjI ballI impI)
    show "distinct (map fst dfe)" by (rule d)
  next
    fix c assume "c \<in> set (processed @ [(col, s)])" "expands prefixos c"
    with False have "c \<in> set processed" by auto
    with done_cols \<open>expands prefixos c\<close>
    show "fst c \<notin> fst ` set dfe"
      and "\<forall>i < nat m. map_of dfe (fst c @ str_nat (Suc i)) = Some (map (item i) (snd c))"
      by blast+
  next
    fix c assume "c \<in> set df" "\<not> (expands prefixos c \<and> c \<in> set (processed @ [(col, s)]))"
    then have "\<not> (expands prefixos c \<and> c \<in> set processed)" by simp
    with kept \<open>c \<in> set df\<close> show "map_of dfe (fst c) = Some (snd c)" by blast
  next
    from names grow show "fst ` set dfe \<subseteq> fst ` set df \<union>
        {fst c @ str_nat (Suc i) | c i.
           c \<in> set (processed @ [(col, s)]) \<and> expands prefixos c \<and> i < nat m}"
      by blast
  qed
  ultimately show ?thesis by blast
next
  case True
  have cdf: "(col, s) \<in> set df" by (simp add: split)
  have notdone: "(col, s) \<notin> set processed"
  proof
    assume "(col, s) \<in> set processed"
    then have "col \<in> set (map fst processed)" by force
    with wf show False by (simp add: split)
  qed
  from kept cdf notdone have "map_of dfe col = Some s" by force
  then have present: "col \<in> fst ` set dfe"
    by (metis domI dom_map_of_conv_image_fst)
  define out where "out = filter (\<lambda>c. fst c \<noteq> col) (expand_column col s m dfe)"
  note st = expand_step [OF d present, where s = s and m = m, folded out_def]
  from True have "list_ex is_list s" and "list_ex (\<lambda>pfx. prefix pfx col) prefixos"
    by (simp_all add: expands_def)
  then have "filter (\<lambda>pfx. prefix pfx col) prefixos \<noteq> []"
    by (simp add: filter_empty_conv list_ex_iff)
  moreover from once cdf True have "length (filter (\<lambda>pfx. prefix pfx col) prefixos) \<le> 1"
    by force
  ultimately have "length (filter (\<lambda>pfx. prefix pfx col) prefixos) = 1"
    by (cases "filter (\<lambda>pfx. prefix pfx col) prefixos") simp_all
  with \<open>list_ex is_list s\<close> have run: "for_prefixos col s m prefixos dfe = Inr out"
    by (simp add: for_prefixos_once st(1))
  have fresh_col: "col @ str_nat (Suc i) \<notin> fst ` set df" if "i < nat m" for i
    using fresh cdf True that by force
  have i: "distinct (map fst out)" by (rule st(2))
  have ii: "fst c \<notin> fst ` set out \<and>
        (\<forall>i < nat m. map_of out (fst c @ str_nat (Suc i)) = Some (map (item i) (snd c)))"
    if c: "c \<in> set (processed @ [(col, s)])" and e: "expands prefixos c" for c
  proof (cases "c = (col, s)")
    case True
    with st(3,4) show ?thesis by simp
  next
    case False
    with c have cp: "c \<in> set processed" by simp
    then have cdf': "c \<in> set df" by (simp add: split)
    from False cdf cdf' wf have ne: "fst c \<noteq> col"
      using key_determines_column [of df c "(col, s)"] by auto
    from fresh cdf' e have fresh_c: "\<forall>i < nat m. fst c @ str_nat (Suc i) \<notin> fst ` set df"
      by blast
    have cname: "fst c \<in> fst ` set df" using cdf' by simp
    have colname: "col \<in> fst ` set df" using cdf by force
    from done_cols cp e have absent: "fst c \<notin> fst ` set dfe"
      and vals: "\<forall>i < nat m. map_of dfe (fst c @ str_nat (Suc i)) = Some (map (item i) (snd c))"
      by blast+
    have "fst c \<notin> fst ` set out"
    proof
      assume "fst c \<in> fst ` set out"
      with st(6) absent obtain j where "j < nat m" "fst c = col @ str_nat (Suc j)" by blast
      with fresh_col [of j] cname show False by simp
    qed
    moreover have "map_of out (fst c @ str_nat (Suc i)) = Some (map (item i) (snd c))"
      if im: "i < nat m" for i
    proof -
      have a: "fst c @ str_nat (Suc i) \<noteq> col" using fresh_c im colname by metis
      have b: "fst c @ str_nat (Suc i) \<noteq> col @ str_nat (Suc j)" if jm: "j < nat m" for j
      proof
        assume "fst c @ str_nat (Suc i) = col @ str_nat (Suc j)"
        from generated_name_clash [OF this ne]
        show False
        proof
          assume "\<exists>k \<le> i. col = fst c @ str_nat (Suc k)"
          then obtain k where "k \<le> i" "col = fst c @ str_nat (Suc k)" by blast
          with im fresh_c colname show False by (metis le_less_trans)
        next
          assume "\<exists>k \<le> j. fst c = col @ str_nat (Suc k)"
          then obtain k where "k \<le> j" "fst c = col @ str_nat (Suc k)" by blast
          with jm fresh_col [of k] cname show False by simp
        qed
      qed
      from a b st(5) have "map_of out (fst c @ str_nat (Suc i)) = map_of dfe (fst c @ str_nat (Suc i))"
        by blast
      with vals im show ?thesis by simp
    qed
    ultimately show ?thesis by blast
  qed
  have iii: "map_of out (fst c) = Some (snd c)"
    if c: "c \<in> set df" and n: "\<not> (expands prefixos c \<and> c \<in> set (processed @ [(col, s)]))" for c
  proof -
    from n True have cne: "c \<noteq> (col, s)" by auto
    with c cdf wf have ne: "fst c \<noteq> col"
      using key_determines_column [of df c "(col, s)"] by auto
    have "fst c \<noteq> col @ str_nat (Suc j)" if "j < nat m" for j
      using fresh_col [OF that] c by force
    with ne st(5) have "map_of out (fst c) = map_of dfe (fst c)" by blast
    moreover from n have "\<not> (expands prefixos c \<and> c \<in> set processed)" by simp
    with kept c have "map_of dfe (fst c) = Some (snd c)" by blast
    ultimately show ?thesis by simp
  qed
  have iv: "fst ` set out \<subseteq> fst ` set df \<union>
        {fst c @ str_nat (Suc i) | c i.
           c \<in> set (processed @ [(col, s)]) \<and> expands prefixos c \<and> i < nat m}"
  proof
    fix n assume "n \<in> fst ` set out"
    with st(6) have "n \<in> fst ` set dfe \<or> (\<exists>i < nat m. n = col @ str_nat (Suc i))" by blast
    then show "n \<in> fst ` set df \<union>
        {fst c @ str_nat (Suc i) | c i.
           c \<in> set (processed @ [(col, s)]) \<and> expands prefixos c \<and> i < nat m}"
    proof
      assume "n \<in> fst ` set dfe"
      with names grow show ?thesis by blast
    next
      assume "\<exists>i < nat m. n = col @ str_nat (Suc i)"
      then obtain i where "i < nat m" "n = fst (col, s) @ str_nat (Suc i)" by auto
      with True show ?thesis by (intro UnI2 CollectI exI [of _ "(col, s)"] exI [of _ i]) simp
    qed
  qed
  from i ii iii iv have "columns_done df prefixos m (processed @ [(col, s)]) out"
    unfolding columns_done_def by blast
  with run show ?thesis by blast
  qed
qed

lemma for_columns_done:
  fixes df :: "'a dataframe"
  assumes wf: "distinct (map fst df)"
    and once: "\<forall>c \<in> set df. expands prefixos c \<longrightarrow>
                 length (filter (\<lambda>pfx. prefix pfx (fst c)) prefixos) \<le> 1"
    and fresh: "\<forall>c \<in> set df. expands prefixos c \<longrightarrow>
                 (\<forall>i < nat m. fst c @ str_nat (Suc i) \<notin> fst ` set df)"
  shows "df = processed @ cols \<Longrightarrow> columns_done df prefixos m processed dfe \<Longrightarrow>
         \<exists>out. for_columns cols prefixos m dfe = Inr out \<and> columns_done df prefixos m df out"
proof (induction cols arbitrary: processed dfe)
  case Nil
  then show ?case by simp
next
  case (Cons c cols)
  obtain col s where c: "c = (col, s)" by (cases c)
  from Cons.prems(1) have split: "df = processed @ (col, s) # cols" by (simp add: c)
  from columns_done_step [OF wf once fresh split Cons.prems(2)]
  obtain df' where run: "for_prefixos col s m prefixos dfe = Inr df'"
    and inv: "columns_done df prefixos m (processed @ [(col, s)]) df'" by blast
  from split have "df = (processed @ [(col, s)]) @ cols" by simp
  from Cons.IH [OF this inv]
  obtain out where "for_columns cols prefixos m df' = Inr out"
    and "columns_done df prefixos m df out" by blast
  with run show ?case by (simp add: c)
qed

section \<open>Expanding list columns: verified properties\<close>

text \<open>
  C9, as stated, fails: when a list column's name starts with two entries of the prefix
  list, the column is dropped at the first match and the second match drops it again,
  which raises \<open>KeyError\<close>; no frame is returned.
\<close>

theorem expandir_two_prefixes_counterexample:
  "expandir_listas_em_colunas
     [(''x'', [Atom (500005 :: int)]), (''dts_a'', [ListCell [Atom 20200105, Atom 20200110]])]
     [''dts'', ''dts_a''] 2 = Inl KeyError"
  by code_simp

text \<open>
  C9, amended. For a frame with unique column names, when the name of every expanded
  column (one whose name starts with a prefix and that holds a list value) starts with
  at most one entry of the prefix list, and no name \<open><name>i\<close> generated for an expanded
  column (\<open>1 \<le> i \<le> max_itens\<close>) is the name of an input column: the function returns a
  frame in which every expanded column is gone and replaced by the columns
  \<open><name>1\<close> .. \<open><name>max_itens\<close>, column \<open><name>i\<close> holding for each row the \<open>i\<close>-th element of
  the row's list when the row holds a list of at least \<open>i\<close> elements and null otherwise;
  every other input column is unchanged, and the frame has no further column.
\<close>

theorem expandir_replaces_list_columns:
  fixes df :: "'a dataframe"
  assumes "distinct (map fst df)"
    and "\<forall>c \<in> set df. expands prefixos c \<longrightarrow>
           length (filter (\<lambda>pfx. prefix pfx (fst c)) prefixos) \<le> 1"
    and "\<forall>c \<in> set df. expands prefixos c \<longrightarrow>
           (\<forall>i < nat max_itens. fst c @ str_nat (Suc i) \<notin> fst ` set df)"
  shows "\<exists>out. expandir_listas_em_colunas df prefixos max_itens = Inr out \<and>
           distinct (map fst out) \<and>
           (\<forall>c \<in> set df. expands prefixos c \<longrightarrow>
              fst c \<notin> fst ` set out \<and>
              (\<forall>i < nat max_itens.
                 map_of out (fst c @ str_nat (Suc i)) = Some (map (item i) (snd c)))) \<and>
           (\<forall>c \<in> set df. \<not> expands prefixos c \<longrightarrow> map_of out (fst c) = Some (snd c)) \<and>
           fst ` set out \<subseteq> fst ` set df \<union>
             {fst c @ str_nat (Suc i) | c i.
                c \<in> set df \<and> expands prefixos c \<and> i < nat max_itens}"
proof -
  have "df = [] @ df" by simp
  from for_columns_done [OF assms this columns_done_initial [OF assms(1)]]
  obtain out where run: "for_columns df prefixos max_itens df = Inr out"
    and inv: "columns_done df prefixos max_itens df out" by blast
  from inv have "distinct (map fst out)"
    and "\<forall>c \<in> set df. expands prefixos c \<longrightarrow>
              fst c \<notin> fst ` set out \<and>
              (\<forall>i < nat max_itens.
                 map_of out (fst c @ str_nat (Suc i)) = Some (map (item i) (snd c)))"
    and "\<forall>c \<in> set df. \<not> expands prefixos c \<longrightarrow> map_of out (fst c) = Some (snd c)"
    and "fst ` set out \<subseteq> fst ` set df \<union>
             {fst c @ str_nat (Suc i) | c i.
                c \<in> set df \<and> expands prefixos c \<and> i < nat max_itens}"
    unfolding columns_done_def by blast+
  with run show ?thesis
    unfolding expandir_listas_em_colunas_def by blast
qed

theorem expandir_replaces_list_columns_witness:
  "\<exists>out. expandir_listas_em_colunas
            [(''x'', [Atom (500005 :: int), Atom 500015]),
             (''dts_a'', [ListCell [Atom 20200105, Atom 20200110], ListCell [Atom 20200105]])]
            [''dts_a'', ''dts_d''] 2 = Inr out \<and>
         map_of out ''x'' = Some [Atom 500005, Atom 500015] \<and>
         map_of out ''dts_a'' = None \<and>
         map_of out ''dts_a1'' = Some [Atom 20200105, Atom 20200105] \<and>
         map_of out ''dts_a2'' = Some [Atom 20200110, Null]"
proof -
  let ?x = "(''x'', [Atom (500005 :: int), Atom 500015])"
  let ?d = "(''dts_a'', [ListCell [Atom (20200105 :: int), Atom 20200110],
                         ListCell [Atom 20200105]])"
  let ?df = "[?x, ?d]"
  let ?ps = "[''dts_a'', ''dts_d'']"
  have ex: "\<not> expands ?ps ?x" "expands ?ps ?d" by (simp_all add: expands_def)
  have h1: "distinct (map fst ?df)" by simp
  have h2: "\<forall>c \<in> set ?df. expands ?ps c \<longrightarrow>
              length (filter (\<lambda>pfx. prefix pfx (fst c)) ?ps) \<le> 1"
    by simp
  have h3: "\<forall>c \<in> set ?df. expands ?ps c \<longrightarrow>
              (\<forall>i < nat 2. fst c @ str_nat (Suc i) \<notin> fst ` set ?df)"
    using ex by (simp add: str_nat_not_Nil)
  from expandir_replaces_list_columns [OF h1 h2 h3]
  obtain out where run: "expandir_listas_em_colunas ?df ?ps 2 = Inr out"
    and gone: "\<forall>c \<in> set ?df. expands ?ps c \<longrightarrow>
              fst c \<notin> fst ` set out \<and>
              (\<forall>i < nat 2. map_of out (fst c @ str_nat (Suc i)) = Some (map (item i) (snd c)))"
    and kept: "\<forall>c \<in> set ?df. \<not> expands ?ps c \<longrightarrow> map_of out (fst c) = Some (snd c)"
    by blast
  from kept ex(1) have x: "map_of out ''x'' = Some [Atom 500005, Atom 500015]" by simp
  from gone ex(2) have "''dts_a'' \<notin> fst ` set out"
    and items: "\<forall>i < nat 2. map_of out (''dts_a'' @ str_nat (Suc i))
                  = Some (map (item i) [ListCell [Atom 20200105, Atom 20200110],
                                        ListCell [Atom 20200105]])"
    by simp_all
  then have d: "map_of out ''dts_a'' = None"
    by (metis domIff dom_map_of_conv_image_fst)
  from items have "map_of out (''dts_a'' @ str_nat (Suc 0))
                  = Some (map (item 0) [ListCell [Atom 20200105, Atom 20200110],
                                        ListCell [Atom 20200105]])"
    and "map_of out (''dts_a'' @ str_nat (Suc 1))
                  = Some (map (item 1) [ListCell [Atom 20200105, Atom 20200110],
                                        ListCell [Atom 20200105]])"
    by simp_all
  then have "map_of out ''dts_a1'' = Some [Atom 20200105, Atom 20200105]"
    and "map_of out ''dts_a2'' = Some [Atom 20200110, Null]"
    by (simp_all add: str_nat_small)
  with run x d show ?thesis by blast
qed

section \<open>Observations around a reference date: properties\<close>

lemma observations_ok:
  assumes "b < n_cols pixel_vals" and "length datas_pixel = n_rows pixel_vals"
  shows "observations datas_pixel pixel_vals b
         = Inr (sort_values (query_valid (zip datas_pixel (band_values pixel_vals b))))"
  using assms by (simp add: observations_def column_def data_frame_def band_values_def)

lemma mset_sort_values_desc: "mset (sort_values_desc df) = mset df"
  by (simp add: sort_values_desc_def)

lemma descending_sort_values_desc:
  "sorted_wrt (\<lambda>r s. fst s \<le> fst r) (sort_values_desc df)"
proof -
  have "sorted (map fst (sort_key fst (rev df)))" by (rule sorted_sort_key)
  then have "sorted_wrt (\<lambda>r s. fst r \<le> fst s) (sort_key fst (rev df))"
    by (simp add: sorted_wrt_map)
  then show ?thesis
    by (simp add: sort_values_desc_def sorted_wrt_rev)
qed

lemma ascending_sort_values: "sorted_wrt (\<lambda>r s. fst r \<le> fst s) (sort_values df)"
proof -
  have "sorted (map fst (sort_key fst df))" by (rule sorted_sort_key)
  then show ?thesis by (simp add: sort_values_def sorted_wrt_map)
qed

lemma head_take: "0 \<le> n \<Longrightarrow> head n df = take (nat n) df"
  by (simp add: head_def)

lemma mset_take_rest: "mset ys - mset (take k ys) = mset (drop k ys)"
proof -
  have "mset ys = mset (take k ys) + mset (drop k ys)"
    by (metis append_take_drop_id mset_append)
  then show ?thesis by simp
qed

lemma take_splits_sorted:
  assumes "sorted_wrt P ys"
  shows "\<forall>s \<in> set (take k ys). \<forall>r \<in> set (drop k ys). P s r"
proof -
  from assms have "sorted_wrt P (take k ys @ drop k ys)" by simp
  then show ?thesis unfolding sorted_wrt_append by blast
qed

lemma nearest_before_take:
  assumes c: "mset ys = mset cands"
    and d: "sorted_wrt (\<lambda>r s. fst s \<le> fst r) ys"
    and n: "0 \<le> n"
  shows "nearest_before n cands (sort_values (head n ys))"
proof -
  let ?sel = "sort_values (head n ys)"
  have m: "mset ?sel = mset (take (nat n) ys)"
    using n by (simp add: sort_values_def head_take)
  have len: "length cands = length ys" using c by (metis mset_eq_length)
  have 1: "mset ?sel \<subseteq># mset cands"
    unfolding m c [symmetric] by (metis append_take_drop_id mset_append mset_subset_eq_add_left)
  have 2: "length ?sel = min (nat n) (length cands)"
    using n by (simp add: sort_values_def head_take len)
  have 3: "sorted (map fst ?sel)" by (simp add: sort_values_def)
  have rest: "mset cands - mset ?sel = mset (drop (nat n) ys)"
    unfolding m c [symmetric] by (rule mset_take_rest)
  have sel: "set ?sel = set (take (nat n) ys)"
    using m by (metis set_mset_mset)
  have 4: "\<forall>r \<in># mset cands - mset ?sel. \<forall>s \<in> set ?sel. fst r \<le> fst s"
    unfolding rest sel using take_splits_sorted [OF d, of "nat n"] by auto
  from 1 2 3 4 show ?thesis unfolding nearest_before_def by blast
qed

lemma nearest_after_take:
  assumes c: "mset ys = mset cands"
    and d: "sorted_wrt (\<lambda>r s. fst r \<le> fst s) ys"
    and n: "0 \<le> n"
  shows "nearest_after n cands (head n ys)"
proof -
  let ?sel = "head n ys"
  have m: "?sel = take (nat n) ys" using n by (simp add: head_take)
  have len: "length cands = length ys" using c by (metis mset_eq_length)
  have 1: "mset ?sel \<subseteq># mset cands"
    unfolding m c [symmetric] by (metis append_take_drop_id mset_append mset_subset_eq_add_left)
  have 2: "length ?sel = min (nat n) (length cands)"
    using n by (simp add: head_take len)
  have "sorted_wrt (\<lambda>r s. fst r \<le> fst s) (take (nat n) ys)"
    using d by (rule sorted_wrt_take)
  then have 3: "sorted (map fst ?sel)" unfolding m by (simp add: sorted_wrt_map)
  have rest: "mset cands - mset ?sel = mset (drop (nat n) ys)"
    unfolding m c [symmetric] by (rule mset_take_rest)
  have 4: "\<forall>r \<in># mset cands - mset ?sel. \<forall>s \<in> set ?sel. fst s \<le> fst r"
    unfolding rest unfolding m using take_splits_sorted [OF d, of "nat n"] by auto
  from 1 2 3 4 show ?thesis unfolding nearest_after_def by blast
qed

lemma candidates_before:
  "mset (sort_values_desc (filter (\<lambda>r. fst r \<le> t) (sort_values (query_valid (zip data valor)))))
   = mset (valid_before data valor t)"
  by (simp add: mset_sort_values_desc sort_values_def query_valid_def valid_before_def
      filter_filter_mset conj_commute)

lemma candidates_after:
  "mset (sort_values (filter (\<lambda>r. fst r > t) (sort_values (query_valid (zip data valor)))))
   = mset (valid_after data valor t)"
  by (simp add: sort_values_def query_valid_def valid_after_def filter_filter_mset conj_commute)

lemma antes_nearest:
  assumes "0 \<le> n"
  shows "nearest_before n (valid_before data valor t)
           (sort_values (antes_of (sort_values (query_valid (zip data valor))) t n))"
  unfolding antes_of_def
  using candidates_before descending_sort_values_desc assms by (rule nearest_before_take)

lemma depois_nearest:
  assumes "0 \<le> n"
  shows "nearest_after n (valid_after data valor t)
           (depois_of (sort_values (query_valid (zip data valor))) t n)"
  unfolding depois_of_def
  using candidates_after ascending_sort_values assms by (rule nearest_after_take)

lemma sorted_dates: "sort (map fst df) = map fst (sort_values df)"
proof -
  have "mset (map fst (sort_key fst df)) = mset (map fst df)" by simp
  moreover have "sorted (map fst (sort_key fst df))" by (rule sorted_sort_key)
  ultimately show ?thesis unfolding sort_values_def by (rule properties_for_sort)
qed

lemma empty_bands_other:
  "k \<notin> (\<lambda>b. b @ ''_a'') ` set names \<union> (\<lambda>b. b @ ''_d'') ` set names
   \<Longrightarrow> empty_bands names row k = row k"
  by (induction names arbitrary: row) auto

lemma empty_bands_member:
  "b \<in> set names \<Longrightarrow>
   empty_bands names row (b @ ''_a'') = Some (Values []) \<and>
   empty_bands names row (b @ ''_d'') = Some (Values [])"
proof (induction names arbitrary: row)
  case Nil
  then show ?case by simp
next
  case (Cons c names)
  show ?case
  proof (cases "b \<in> set names")
    case True
    then show ?thesis using Cons.IH by simp
  next
    case False
    with Cons.prems have bc: "b = c" by simp
    from False have "b @ ''_a'' \<notin> (\<lambda>b. b @ ''_a'') ` set names \<union> (\<lambda>b. b @ ''_d'') ` set names"
      and "b @ ''_d'' \<notin> (\<lambda>b. b @ ''_a'') ` set names \<union> (\<lambda>b. b @ ''_d'') ` set names"
      by auto
    then show ?thesis using bc by (simp add: empty_bands_other)
  qed
qed

lemma for_bands_result:
  assumes "b + length names \<le> n_cols pixel_vals"
    and "length datas_pixel = n_rows pixel_vals"
    and "distinct names"
  shows "\<exists>row'. for_bands datas_pixel pixel_vals t n b names row = Inr row' \<and>
           (\<forall>k. k \<notin> (\<lambda>b. b @ ''_a'') ` set names \<union> (\<lambda>b. b @ ''_d'') ` set names
                \<longrightarrow> row' k = row k) \<and>
           (\<forall>i < length names.
              row' (names ! i @ ''_a'') =
                Some (Values (map snd (sort_values (antes_of
                  (sort_values (query_valid (zip datas_pixel (band_values pixel_vals (b + i)))))
                  t n)))) \<and>
              row' (names ! i @ ''_d'') =
                Some (Values (map snd (depois_of
                  (sort_values (query_valid (zip datas_pixel (band_values pixel_vals (b + i)))))
                  t n))))"
  using assms
proof (induction names arbitrary: b row)
  case Nil
  then show ?case by simp
next
  case (Cons c names)
  let ?df = "sort_values (query_valid (zip datas_pixel (band_values pixel_vals b)))"
  let ?row = "row(c @ ''_a'' \<mapsto> Values (map snd (sort_values (antes_of ?df t n))),
                  c @ ''_d'' \<mapsto> Values (map snd (depois_of ?df t n)))"
  let ?keys = "(\<lambda>b. b @ ''_a'') ` set names \<union> (\<lambda>b. b @ ''_d'') ` set names"
  from Cons.prems have b: "b < n_cols pixel_vals" by simp
  have obs: "observations datas_pixel pixel_vals b = Inr ?df"
    using b Cons.prems(2) by (rule observations_ok)
  from Cons.prems have "Suc b + length names \<le> n_cols pixel_vals" and "distinct names"
    by simp_all
  from Cons.IH [OF this(1) Cons.prems(2) this(2), of ?row]
  obtain row' where run: "for_bands datas_pixel pixel_vals t n (Suc b) names ?row = Inr row'"
    and other: "\<forall>k. k \<notin> ?keys \<longrightarrow> row' k = ?row k"
    and bands: "\<forall>i < length names.
              row' (names ! i @ ''_a'') =
                Some (Values (map snd (sort_values (antes_of
                  (sort_values (query_valid (zip datas_pixel (band_values pixel_vals (Suc b + i)))))
                  t n)))) \<and>
              row' (names ! i @ ''_d'') =
                Some (Values (map snd (depois_of
                  (sort_values (query_valid (zip datas_pixel (band_values pixel_vals (Suc b + i)))))
                  t n)))"
    by blast
  from Cons.prems(3) have c: "c \<notin> set names" by simp
  then have ca: "c @ ''_a'' \<notin> ?keys" and cd: "c @ ''_d'' \<notin> ?keys" by auto
  have 1: "for_bands datas_pixel pixel_vals t n b (c # names) row = Inr row'"
    using obs run by simp
  have 2: "\<forall>k. k \<notin> (\<lambda>b. b @ ''_a'') ` set (c # names) \<union> (\<lambda>b. b @ ''_d'') ` set (c # names)
                \<longrightarrow> row' k = row k"
    using other by auto
  have 3: "row' ((c # names) ! i @ ''_a'') =
                Some (Values (map snd (sort_values (antes_of
                  (sort_values (query_valid (zip datas_pixel (band_values pixel_vals (b + i)))))
                  t n)))) \<and>
              row' ((c # names) ! i @ ''_d'') =
                Some (Values (map snd (depois_of
                  (sort_values (query_valid (zip datas_pixel (band_values pixel_vals (b + i)))))
                  t n)))" if i: "i < length (c # names)" for i
  proof (cases i)
    case 0
    then show ?thesis using other ca cd by simp
  next
    case (Suc j)
    with i have "j < length names" by simp
    with bands show ?thesis using Suc by simp
  qed
  from 1 2 3 show ?case by blast
qed

lemma band_key_rev:
  assumes "k \<in> (\<lambda>b. b @ ''_a'') ` S \<union> (\<lambda>b. b @ ''_d'') ` S"
  shows "\<exists>b \<in> S. rev k = ''a_'' @ rev b \<or> rev k = ''d_'' @ rev b"
  using assms by auto

lemma data_mid_no_band_key:
  "''data_mid'' \<notin> (\<lambda>b. b @ ''_a'') ` S \<union> (\<lambda>b. b @ ''_d'') ` S"
proof
  assume "''data_mid'' \<in> (\<lambda>b. b @ ''_a'') ` S \<union> (\<lambda>b. b @ ''_d'') ` S"
  from band_key_rev [OF this] show False by simp
qed

lemma dts_no_band_key:
  assumes "''dts'' \<notin> S"
  shows "''dts_a'' \<notin> (\<lambda>b. b @ ''_a'') ` S \<union> (\<lambda>b. b @ ''_d'') ` S"
    and "''dts_d'' \<notin> (\<lambda>b. b @ ''_a'') ` S \<union> (\<lambda>b. b @ ''_d'') ` S"
proof -
  have r: "rev b = ''std'' \<longleftrightarrow> b = ''dts''" for b :: string
    by (metis rev_rev_ident rev.simps rev_singleton_conv append_Cons append_Nil)
  then have r': "''std'' = rev b \<longleftrightarrow> b = ''dts''" for b :: string
    by (metis (full_types))
  show "''dts_a'' \<notin> (\<lambda>b. b @ ''_a'') ` S \<union> (\<lambda>b. b @ ''_d'') ` S"
  proof
    assume "''dts_a'' \<in> (\<lambda>b. b @ ''_a'') ` S \<union> (\<lambda>b. b @ ''_d'') ` S"
    from band_key_rev [OF this] obtain b where "b \<in> S" and "b = ''dts''"
      by (auto simp add: r r')
    with assms show False by simp
  qed
  show "''dts_d'' \<notin> (\<lambda>b. b @ ''_a'') ` S \<union> (\<lambda>b. b @ ''_d'') ` S"
  proof
    assume "''dts_d'' \<in> (\<lambda>b. b @ ''_a'') ` S \<union> (\<lambda>b. b @ ''_d'') ` S"
    from band_key_rev [OF this] obtain b where "b \<in> S" and "b = ''dts''"
      by (auto simp add: r r')
    with assms show False by simp
  qed
qed

text \<open>
  C4, as the code has it. The claim fails as worded: when the first band has no valid
  observation every list of the row is empty, also for a band that has valid observations
  on both sides of the target.
\<close>

theorem processar_pixel_empty_first_band_counterexample:
  "\<exists>row. processar_pixel 0 500005 4500005
            \<lparr>n_rows = 2, n_cols = 2, value_at = (\<lambda>i b. [[65535, 7], [65535, 8]] ! i ! b)\<rparr>
            [10, 30] 25 [''g'', ''r''] None 10 = Inr row \<and>
         row ''dts_a'' = Some (Days []) \<and> row ''dts_d'' = Some (Days []) \<and>
         row ''r_a'' = Some (Values []) \<and> row ''r_d'' = Some (Values []) \<and>
         valid_before [10, 30]
           (band_values \<lparr>n_rows = 2, n_cols = 2,
                          value_at = (\<lambda>i b. [[65535, 7], [65535, 8]] ! i ! b)\<rparr> 1) 25
           = [(10, 7)] \<and>
         valid_after [10, 30]
           (band_values \<lparr>n_rows = 2, n_cols = 2,
                          value_at = (\<lambda>i b. [[65535, 7], [65535, 8]] ! i ! b)\<rparr> 1) 25
           = [(30, 8)]"
proof -
  have u: "[0..<2] = [0, Suc 0]" by (simp add: upt_rec)
  show ?thesis
    by (simp add: processar_pixel_def observations_def column_def band_values_def
        data_frame_def query_valid_def sort_values_def Let_def valid_before_def valid_after_def u)
qed

text \<open>
  C4, amended. Let \<open>N_OBS\<close> be non-negative, let the array have a first band and one line
  per date, let the band names be distinct and none of them \<open>dts\<close>, and, if the first band
  has a valid observation (a value other than 65535), let the array have a band for every
  band name. Then \<open>processar_pixel\<close> returns a row. Its target date is \<open>data_0\<close> when
  \<open>data_1\<close> is absent or equal to \<open>data_0\<close>, and otherwise \<open>data_0\<close> plus the floor of half
  the number of days from \<open>data_0\<close> to \<open>data_1\<close>. The date lists \<open>dts_a\<close> and \<open>dts_d\<close> are
  in ascending order and hold the dates of the at most \<open>N_OBS\<close> observations nearest to the
  target among those valid in the first band and dated on or before the target,
  respectively strictly after it. When the first band has no valid observation, both value
  lists of every band are empty. Otherwise the two value lists of a band hold, in
  ascending order of date, the values of the at most \<open>N_OBS\<close> observations nearest to the
  target on each side among those valid in that band, whether or not their dates are the
  returned ones.
\<close>

theorem processar_pixel_nearest_observations:
  assumes n: "0 \<le> N_OBS"
    and first: "0 < n_cols pixel_vals"
    and cols: "query_valid (zip datas_pixel (band_values pixel_vals 0)) \<noteq> [] \<longrightarrow>
               length band_names \<le> n_cols pixel_vals"
    and len: "length datas_pixel = n_rows pixel_vals"
    and names: "distinct band_names" "''dts'' \<notin> set band_names"
  shows "\<exists>row.
      processar_pixel pixel_idx x y pixel_vals datas_pixel data_0 band_names data_1 N_OBS
        = Inr row \<and>
      data_target_of data_0 data_1 =
        (if data_1 = None \<or> data_1 = Some data_0 then data_0
         else data_0 + (the data_1 - data_0) div 2) \<and>
      row ''data_mid'' = Some (Day (data_target_of data_0 data_1)) \<and>
      (\<exists>antes depois.
         row ''dts_a'' = Some (Days (map fst antes)) \<and>
         row ''dts_d'' = Some (Days (map fst depois)) \<and>
         nearest_before N_OBS
           (valid_before datas_pixel (band_values pixel_vals 0) (data_target_of data_0 data_1))
           antes \<and>
         nearest_after N_OBS
           (valid_after datas_pixel (band_values pixel_vals 0) (data_target_of data_0 data_1))
           depois) \<and>
      (\<forall>b < length band_names. \<exists>antes depois.
         row (band_names ! b @ ''_a'') = Some (Values (map snd antes)) \<and>
         row (band_names ! b @ ''_d'') = Some (Values (map snd depois)) \<and>
         (if query_valid (zip datas_pixel (band_values pixel_vals 0)) = []
          then antes = [] \<and> depois = []
          else nearest_before N_OBS
                 (valid_before datas_pixel (band_values pixel_vals b)
                    (data_target_of data_0 data_1)) antes \<and>
               nearest_after N_OBS
                 (valid_after datas_pixel (band_values pixel_vals b)
                    (data_target_of data_0 data_1)) depois))"
proof -
  define t where "t = data_target_of data_0 data_1"
  define base where "base = sort_values (query_valid (zip datas_pixel (band_values pixel_vals 0)))"
  define row0 :: pixel_row where
    "row0 = [''x'' \<mapsto> Number x, ''y'' \<mapsto> Number y, ''idx_h5'' \<mapsto> Index pixel_idx,
             ''data_0'' \<mapsto> Day data_0,
             ''data_1'' \<mapsto> (case data_1 of None \<Rightarrow> Missing | Some d1 \<Rightarrow> Day d1),
             ''data_mid'' \<mapsto> Day t]"
  define A where "A = sort_values (antes_of base t N_OBS)"
  define D where "D = depois_of base t N_OBS"
  define row1 where "row1 = row0(''dts_a'' \<mapsto> Days (map fst A), ''dts_d'' \<mapsto> Days (map fst D))"
  let ?keys = "(\<lambda>b. b @ ''_a'') ` set band_names \<union> (\<lambda>b. b @ ''_d'') ` set band_names"
  have target: "t = (if data_1 = None \<or> data_1 = Some data_0 then data_0
         else data_0 + (the data_1 - data_0) div 2)"
    unfolding t_def data_target_of_def by (cases data_1) auto
  have obs: "observations datas_pixel pixel_vals 0 = Inr base"
    unfolding base_def using first len by (rule observations_ok)
  have empty: "base = [] \<longleftrightarrow> query_valid (zip datas_pixel (band_values pixel_vals 0)) = []"
    unfolding base_def sort_values_def by (metis length_sort length_0_conv)
  have run: "processar_pixel pixel_idx x y pixel_vals datas_pixel data_0 band_names data_1 N_OBS
             = (if base = [] then Inr (empty_bands band_names row1)
                else for_bands datas_pixel pixel_vals t N_OBS 0 band_names row1)"
  proof (cases "base = []")
    case True
    then have "A = []" "D = []"
      by (simp_all add: A_def D_def antes_of_def depois_of_def head_def sort_values_def
          sort_values_desc_def)
    then show ?thesis
      using True obs
      by (simp add: processar_pixel_def Let_def row1_def row0_def t_def)
  next
    case False
    then show ?thesis
      using obs
      by (simp add: processar_pixel_def Let_def row1_def row0_def t_def A_def D_def sorted_dates
          base_def)
  qed
  have mid1: "row1 ''data_mid'' = Some (Day t)" by (simp add: row1_def row0_def)
  have a1: "row1 ''dts_a'' = Some (Days (map fst A))" by (simp add: row1_def)
  have d1: "row1 ''dts_d'' = Some (Days (map fst D))" by (simp add: row1_def)
  have nA: "nearest_before N_OBS (valid_before datas_pixel (band_values pixel_vals 0) t) A"
    unfolding A_def base_def using n by (rule antes_nearest)
  have nD: "nearest_after N_OBS (valid_after datas_pixel (band_values pixel_vals 0) t) D"
    unfolding D_def base_def using n by (rule depois_nearest)
  have "\<exists>row. (if base = [] then Inr (empty_bands band_names row1)
                else for_bands datas_pixel pixel_vals t N_OBS 0 band_names row1) = Inr row \<and>
          (\<forall>k. k \<notin> ?keys \<longrightarrow> row k = row1 k) \<and>
          (\<forall>b < length band_names. \<exists>antes depois.
             row (band_names ! b @ ''_a'') = Some (Values (map snd antes)) \<and>
             row (band_names ! b @ ''_d'') = Some (Values (map snd depois)) \<and>
             (if query_valid (zip datas_pixel (band_values pixel_vals 0)) = []
              then antes = [] \<and> depois = []
              else nearest_before N_OBS
                     (valid_before datas_pixel (band_values pixel_vals b) t) antes \<and>
                   nearest_after N_OBS
                     (valid_after datas_pixel (band_values pixel_vals b) t) depois))"
  proof (cases "base = []")
    case True
    have "\<forall>k. k \<notin> ?keys \<longrightarrow> empty_bands band_names row1 k = row1 k"
      by (simp add: empty_bands_other)
    moreover have "\<forall>b < length band_names.
             empty_bands band_names row1 (band_names ! b @ ''_a'') = Some (Values []) \<and>
             empty_bands band_names row1 (band_names ! b @ ''_d'') = Some (Values [])"
      using empty_bands_member [of _ band_names row1] by simp
    ultimately show ?thesis using True empty by simp
  next
    case False
    have "0 + length band_names \<le> n_cols pixel_vals" using cols False empty by simp
    from for_bands_result [OF this len names(1), of t N_OBS row1]
    obtain row where r: "for_bands datas_pixel pixel_vals t N_OBS 0 band_names row1 = Inr row"
      and other: "\<forall>k. k \<notin> ?keys \<longrightarrow> row k = row1 k"
      and bands: "\<forall>i < length band_names.
              row (band_names ! i @ ''_a'') =
                Some (Values (map snd (sort_values (antes_of
                  (sort_values (query_valid (zip datas_pixel (band_values pixel_vals (0 + i)))))
                  t N_OBS)))) \<and>
              row (band_names ! i @ ''_d'') =
                Some (Values (map snd (depois_of
                  (sort_values (query_valid (zip datas_pixel (band_values pixel_vals (0 + i)))))
                  t N_OBS)))"
      by blast
    have "\<exists>antes depois.
             row (band_names ! b @ ''_a'') = Some (Values (map snd antes)) \<and>
             row (band_names ! b @ ''_d'') = Some (Values (map snd depois)) \<and>
             nearest_before N_OBS (valid_before datas_pixel (band_values pixel_vals b) t) antes \<and>
             nearest_after N_OBS (valid_after datas_pixel (band_values pixel_vals b) t) depois"
      if "b < length band_names" for b
      using bands that antes_nearest [OF n, of datas_pixel "band_values pixel_vals b" t]
        depois_nearest [OF n, of datas_pixel "band_values pixel_vals b" t]
      by auto
    with r other show ?thesis using False empty by simp
  qed
  then obtain row where res: "(if base = [] then Inr (empty_bands band_names row1)
                else for_bands datas_pixel pixel_vals t N_OBS 0 band_names row1) = Inr row"
    and other: "\<forall>k. k \<notin> ?keys \<longrightarrow> row k = row1 k"
    and bands: "\<forall>b < length band_names. \<exists>antes depois.
             row (band_names ! b @ ''_a'') = Some (Values (map snd antes)) \<and>
             row (band_names ! b @ ''_d'') = Some (Values (map snd depois)) \<and>
             (if query_valid (zip datas_pixel (band_values pixel_vals 0)) = []
              then antes = [] \<and> depois = []
              else nearest_before N_OBS
                     (valid_before datas_pixel (band_values pixel_vals b) t) antes \<and>
                   nearest_after N_OBS
                     (valid_after datas_pixel (band_values pixel_vals b) t) depois)"
    by blast
  from other have mid: "row ''data_mid'' = Some (Day t)"
    and a: "row ''dts_a'' = Some (Days (map fst A))"
    and d: "row ''dts_d'' = Some (Days (map fst D))"
    using data_mid_no_band_key [of "set band_names"] dts_no_band_key [OF names(2)] mid1 a1 d1
    by simp_all
  from a d nA nD have dts: "\<exists>antes depois.
         row ''dts_a'' = Some (Days (map fst antes)) \<and>
         row ''dts_d'' = Some (Days (map fst depois)) \<and>
         nearest_before N_OBS (valid_before datas_pixel (band_values pixel_vals 0) t) antes \<and>
         nearest_after N_OBS (valid_after datas_pixel (band_values pixel_vals 0) t) depois"
    by blast
  from run res
  have "processar_pixel pixel_idx x y pixel_vals datas_pixel data_0 band_names data_1 N_OBS
        = Inr row"
    by simp
  from this target mid dts bands show ?thesis
    unfolding t_def [symmetric] by (intro exI [of _ row] conjI)
qed

theorem processar_pixel_nearest_observations_witness:
  "\<exists>row. processar_pixel 3 1 2
            \<lparr>n_rows = 4, n_cols = 2,
             value_at = (\<lambda>i b. [[1, 2], [65535, 3], [4, 65535], [5, 6]] ! i ! b)\<rparr>
            [10, 20, 30, 40] 25 [''g'', ''r''] (Some 32) 1 = Inr row \<and>
         row ''data_mid'' = Some (Day 28) \<and>
         row ''dts_a'' = Some (Days [10]) \<and>
         row ''dts_d'' = Some (Days [30])"
proof -
  let ?pv = "\<lparr>n_rows = 4, n_cols = 2,
             value_at = (\<lambda>i b. [[1, 2], [65535, 3], [4, 65535], [5, 6]] ! i ! b)\<rparr>"
  let ?datas = "[10, 20, 30, 40] :: int list"
  let ?names = "[''g'', ''r'']"
  have u: "[0..<4] = [0, 1, 2, 3]" by (simp add: upt_rec)
  have t: "data_target_of 25 (Some 32) = 28" by (simp add: data_target_of_def)
  have vb: "valid_before ?datas (band_values ?pv 0) 28 = [(10, 1)]"
    by (simp add: valid_before_def band_values_def u)
  have va: "valid_after ?datas (band_values ?pv 0) 28 = [(30, 4), (40, 5)]"
    by (simp add: valid_after_def band_values_def u)
  have h: "(0::int) \<le> 1" "0 < n_cols ?pv"
    "query_valid (zip ?datas (band_values ?pv 0)) \<noteq> [] \<longrightarrow> length ?names \<le> n_cols ?pv"
    "length ?datas = n_rows ?pv" "distinct ?names" "''dts'' \<notin> set ?names"
    by simp_all
  from processar_pixel_nearest_observations [OF h, of 3 1 2 25 "Some 32"]
  obtain row antes depois
    where run: "processar_pixel 3 1 2 ?pv ?datas 25 ?names (Some 32) 1 = Inr row"
      and mid: "row ''data_mid'' = Some (Day 28)"
      and a: "row ''dts_a'' = Some (Days (map fst antes))"
      and d: "row ''dts_d'' = Some (Days (map fst depois))"
      and na: "nearest_before 1 [(10, 1)] antes"
      and nd: "nearest_after 1 [(30, 4), (40, 5)] depois"
    unfolding t vb va by blast
  from na have "set antes \<subseteq> {(10, 1)}" and "length antes = 1"
    unfolding nearest_before_def using set_mset_mono by fastforce+
  then have antes: "antes = [(10, 1)]"
    by (cases antes) auto
  from nd have sub: "mset depois \<subseteq># mset [(30, 4), (40, 5)]" and "length depois = 1"
    and far: "\<forall>r \<in># mset [(30, 4), (40, 5)] - mset depois. \<forall>s \<in> set depois. fst s \<le> fst r"
    unfolding nearest_after_def by simp_all
  then obtain s where s: "depois = [s]" by (cases depois) auto
  with sub have "s = (30, 4) \<or> s = (40, 5)" using set_mset_mono by fastforce
  with far s have depois: "depois = [(30, 4)]" by auto
  from run mid a d antes depois show ?thesis by simp
qed

section \<open>Timestamps: properties\<close>

lemma days_in_month_bounds: "28 \<le> days_in_month y m" "days_in_month y m \<le> 31"
  by (simp_all add: days_in_month_def)

lemma days_left_year: "days_left y 1 = days_in_year y"
  by (simp add: days_left.simps [of y 1] days_left.simps [of y 2] days_left.simps [of y 3]
      days_left.simps [of y 4] days_left.simps [of y 5] days_left.simps [of y 6]
      days_left.simps [of y 7] days_left.simps [of y 8] days_left.simps [of y 9]
      days_left.simps [of y 10] days_left.simps [of y 11] days_left.simps [of y 12]
      days_in_month_def days_in_year_def)

lemma month_day_valid:
  "1 \<le> m \<Longrightarrow> m \<le> 12 \<Longrightarrow> 0 \<le> k \<Longrightarrow> k < days_left y m \<Longrightarrow>
   m \<le> fst (month_day y m k) \<and> fst (month_day y m k) \<le> 12 \<and>
   1 \<le> snd (month_day y m k) \<and>
   snd (month_day y m k) \<le> days_in_month y (fst (month_day y m k))"
proof (induction y m k rule: month_day.induct)
  case (1 y m k)
  show ?case
  proof (cases "m < 12 \<and> days_in_month y m \<le> k")
    case True
    then have l: "days_left y m = days_in_month y m + days_left y (m + 1)"
      by (simp add: days_left.simps [of y m])
    have "m + 1 \<le> fst (month_day y (m + 1) (k - days_in_month y m)) \<and>
          fst (month_day y (m + 1) (k - days_in_month y m)) \<le> 12 \<and>
          1 \<le> snd (month_day y (m + 1) (k - days_in_month y m)) \<and>
          snd (month_day y (m + 1) (k - days_in_month y m))
            \<le> days_in_month y (fst (month_day y (m + 1) (k - days_in_month y m)))"
      using True "1.prems" l by (intro "1.IH") auto
    moreover have "month_day y m k = month_day y (m + 1) (k - days_in_month y m)"
      using True by (simp add: month_day.simps [of y m k])
    ultimately show ?thesis by simp
  next
    case False
    then have r: "month_day y m k = (m, k + 1)" by (subst month_day.simps) auto
    have "k < days_in_month y m"
    proof (cases "m < 12")
      case True
      with False show ?thesis by simp
    next
      case False
      then have "days_left y m = days_in_month y m" by (subst days_left.simps) simp
      then show ?thesis using "1.prems" by simp
    qed
    then show ?thesis using r "1.prems" by simp
  qed
qed

lemma civil_valid:
  "0 \<le> k \<Longrightarrow>
   y \<le> fst (civil y k) \<and> fst (civil y k) \<le> y + k div 365 \<and>
   1 \<le> fst (snd (civil y k)) \<and> fst (snd (civil y k)) \<le> 12 \<and>
   1 \<le> snd (snd (civil y k)) \<and>
   snd (snd (civil y k)) \<le> days_in_month (fst (civil y k)) (fst (snd (civil y k)))"
proof (induction y k rule: civil.induct)
  case (1 y k)
  show ?case
  proof (cases "days_in_year y \<le> k")
    case True
    have d: "365 \<le> days_in_year y" by (simp add: days_in_year_def)
    have c: "civil y k = civil (y + 1) (k - days_in_year y)"
      using True by (simp add: civil.simps [of y k])
    have "(k - days_in_year y) div 365 \<le> (k - 365) div 365"
      using d by (intro zdiv_mono1) simp_all
    then have "(k - days_in_year y) div 365 + 1 \<le> k div 365" by simp
    moreover have "y + 1 \<le> fst (civil (y + 1) (k - days_in_year y)) \<and>
        fst (civil (y + 1) (k - days_in_year y)) \<le> y + 1 + (k - days_in_year y) div 365 \<and>
        1 \<le> fst (snd (civil (y + 1) (k - days_in_year y))) \<and>
        fst (snd (civil (y + 1) (k - days_in_year y))) \<le> 12 \<and>
        1 \<le> snd (snd (civil (y + 1) (k - days_in_year y))) \<and>
        snd (snd (civil (y + 1) (k - days_in_year y)))
          \<le> days_in_month (fst (civil (y + 1) (k - days_in_year y)))
               (fst (snd (civil (y + 1) (k - days_in_year y))))"
      using True by (intro "1.IH") simp_all
    ultimately show ?thesis unfolding c by linarith
  next
    case False
    then have c: "civil y k = (y, month_day y 1 k)" by (simp add: civil.simps [of y k])
    have "k < days_left y 1" using False by (simp add: days_left_year)
    from month_day_valid [OF _ _ "1.prems" this]
    have "1 \<le> fst (month_day y 1 k) \<and> fst (month_day y 1 k) \<le> 12 \<and>
          1 \<le> snd (month_day y 1 k) \<and>
          snd (month_day y 1 k) \<le> days_in_month y (fst (month_day y 1 k))"
      by simp
    moreover have "0 \<le> k div 365" using "1.prems" by (simp add: pos_imp_zdiv_nonneg_iff)
    ultimately show ?thesis unfolding c by simp
  qed
qed

lemma yyyymmdd_digits:
  fixes y m d :: int
  assumes "1 \<le> m" "m \<le> 12" "1 \<le> d" "d \<le> 31"
  shows "(y * 10000 + m * 100 + d) div 10000 = y"
    and "(y * 10000 + m * 100 + d) div 100 mod 100 = m"
    and "(y * 10000 + m * 100 + d) mod 100 = d"
proof -
  have "y * 10000 + m * 100 + d = (m * 100 + d) + y * 10000" by simp
  moreover have "0 \<le> m * 100 + d" "m * 100 + d < 10000" using assms by simp_all
  ultimately show "(y * 10000 + m * 100 + d) div 10000 = y" by simp
  have e: "y * 10000 + m * 100 + d = d + (y * 100 + m) * 100" by simp
  have "(y * 10000 + m * 100 + d) div 100 = y * 100 + m"
    unfolding e using assms by simp
  moreover have "(y * 100 + m) mod 100 = m" using assms by simp
  ultimately show "(y * 10000 + m * 100 + d) div 100 mod 100 = m" by simp
  have "(d + (y * 100 + m) * 100) mod 100 = d mod 100" by (rule mod_mult_self1)
  also have "\<dots> = d" using assms by simp
  finally show "(y * 10000 + m * 100 + d) mod 100 = d" unfolding e .
qed

section \<open>Raster of break dates: properties\<close>

lemma np_round_near: "\<bar>of_int (np_round t) - t\<bar> \<le> 1 / 2"
proof -
  have "of_int \<lfloor>t\<rfloor> \<le> t" and "t < of_int \<lfloor>t\<rfloor> + 1" by linarith+
  then show ?thesis by (auto simp add: np_round_def Let_def)
qed

lemma to_datetime_representable:
  "representable ms \<Longrightarrow> to_datetime ms = Inr (civil 1600 (ms div 86400000 + 135140))"
  by (simp add: representable_def to_datetime_def)

lemma length_set_cell: "length (set_cell arr yi xi v) = length arr"
  by (simp add: set_cell_def)

lemma lines_set_cell:
  assumes "\<forall>line \<in> set arr. length line = w"
  shows "\<forall>line \<in> set (set_cell arr yi xi v). length line = w"
proof (cases "nat yi < length arr")
  case True
  then have "length ((arr ! nat yi)[nat xi := v]) = w" using assms by simp
  then show ?thesis
    using assms set_update_subset_insert [of arr "nat yi" "(arr ! nat yi)[nat xi := v]"]
    unfolding set_cell_def by auto
next
  case False
  then show ?thesis using assms by (simp add: set_cell_def list_update_beyond)
qed

lemma nth_set_cell:
  assumes "0 \<le> yi" "nat yi < length arr" "0 \<le> xi" "nat xi < length (arr ! nat yi)"
    and "0 \<le> yj" "0 \<le> xj"
  shows "set_cell arr yi xi v ! nat yj ! nat xj
         = (if yj = yi \<and> xj = xi then v else arr ! nat yj ! nat xj)"
proof (cases "yj = yi")
  case True
  have "nat xi = nat xj \<longleftrightarrow> xj = xi" using assms by auto
  then show ?thesis using True assms by (simp add: set_cell_def)
next
  case False
  then have "nat yi \<noteq> nat yj" using assms by auto
  then show ?thesis using False assms by (simp add: set_cell_def)
qed

lemma last_write_None:
  "last_write ps yi xi rows = None \<longleftrightarrow> (\<forall>r \<in> set rows. \<not> writes_cell ps yi xi r)"
  by (induction rows) (auto simp add: writes_cell_def split: option.splits)

lemma last_write_nth:
  assumes "i < length rows" and "writes_cell ps yi xi (rows ! i)"
    and "\<forall>j. i < j \<and> j < length rows \<longrightarrow> \<not> writes_cell ps yi xi (rows ! j)"
  shows "last_write ps yi xi rows = tBreak (rows ! i)"
  using assms
proof (induction rows arbitrary: i)
  case Nil
  then show ?case by simp
next
  case (Cons r rows)
  show ?case
  proof (cases i)
    case 0
    from Cons.prems(3) 0 have "\<forall>j < length rows. \<not> writes_cell ps yi xi (rows ! j)" by auto
    then have "\<forall>q \<in> set rows. \<not> writes_cell ps yi xi q" by (auto simp add: in_set_conv_nth)
    then have "last_write ps yi xi rows = None" by (simp add: last_write_None)
    then show ?thesis using 0 Cons.prems(2) by simp
  next
    case (Suc k)
    with Cons.prems have k: "k < length rows" and w: "writes_cell ps yi xi (rows ! k)"
      and "\<forall>j. k < j \<and> j < length rows \<longrightarrow> \<not> writes_cell ps yi xi (rows ! j)"
      by auto
    from Cons.IH [OF this] have l: "last_write ps yi xi rows = tBreak (rows ! k)" .
    from w have "tBreak (rows ! k) \<noteq> None" by (simp add: writes_cell_def)
    with l Suc show ?thesis by auto
  qed
qed

lemma iterrows_cells:
  assumes "length arr = nat (height ps)"
    and "\<forall>line \<in> set arr. length line = nat (width ps)"
    and "\<forall>r \<in> set rows. \<forall>ms. tBreak r = Some ms \<longrightarrow> representable ms"
  shows "\<exists>out. iterrows ps rows arr = Inr out \<and>
           length out = nat (height ps) \<and>
           (\<forall>line \<in> set out. length line = nat (width ps)) \<and>
           (\<forall>yi xi. 0 \<le> yi \<and> yi < height ps \<and> 0 \<le> xi \<and> xi < width ps \<longrightarrow>
              out ! nat yi ! nat xi =
                (case last_write ps yi xi rows of
                   None \<Rightarrow> arr ! nat yi ! nat xi
                 | Some ms \<Rightarrow> yyyymmdd (civil 1600 (ms div 86400000 + 135140))))"
  using assms
proof (induction rows arbitrary: arr)
  case Nil
  then show ?case by simp
next
  case (Cons r rows)
  let ?inside = "0 \<le> x_idx ps r \<and> x_idx ps r < width ps \<and> 0 \<le> y_idx ps r \<and> y_idx ps r < height ps"
  from Cons.prems(3) have rest: "\<forall>r \<in> set rows. \<forall>ms. tBreak r = Some ms \<longrightarrow> representable ms"
    by simp
  show ?case
  proof (cases "?inside \<and> tBreak r \<noteq> None")
    case False
    then have step: "iterrows ps (r # rows) arr = iterrows ps rows arr"
      by (auto split: option.splits)
    have none: "last_write ps yi xi (r # rows) = last_write ps yi xi rows"
      if "0 \<le> yi \<and> yi < height ps \<and> 0 \<le> xi \<and> xi < width ps" for yi xi
      using False that by (auto simp add: writes_cell_def split: option.splits)
    from Cons.IH [OF Cons.prems(1,2) rest] show ?thesis
      unfolding step using none by auto
  next
    case True
    then obtain ms where ms: "tBreak r = Some ms" by auto
    with Cons.prems(3) have "representable ms" by simp
    then have dt: "to_datetime ms = Inr (civil 1600 (ms div 86400000 + 135140))"
      by (rule to_datetime_representable)
    let ?v = "yyyymmdd (civil 1600 (ms div 86400000 + 135140))"
    let ?arr = "set_cell arr (y_idx ps r) (x_idx ps r) ?v"
    have step: "iterrows ps (r # rows) arr = iterrows ps rows ?arr"
      using True ms dt by simp
    have l: "length ?arr = nat (height ps)" using Cons.prems(1) by (simp add: length_set_cell)
    have w: "\<forall>line \<in> set ?arr. length line = nat (width ps)"
      using Cons.prems(2) by (rule lines_set_cell)
    from Cons.IH [OF l w rest]
    obtain out where run: "iterrows ps rows ?arr = Inr out"
      and lo: "length out = nat (height ps)"
      and wo: "\<forall>line \<in> set out. length line = nat (width ps)"
      and cells: "\<forall>yi xi. 0 \<le> yi \<and> yi < height ps \<and> 0 \<le> xi \<and> xi < width ps \<longrightarrow>
              out ! nat yi ! nat xi =
                (case last_write ps yi xi rows of
                   None \<Rightarrow> ?arr ! nat yi ! nat xi
                 | Some ms \<Rightarrow> yyyymmdd (civil 1600 (ms div 86400000 + 135140)))"
      by blast
    have yr: "nat (y_idx ps r) < length arr" using True Cons.prems(1) by auto
    then have "arr ! nat (y_idx ps r) \<in> set arr" by simp
    then have xr: "nat (x_idx ps r) < length (arr ! nat (y_idx ps r))"
      using True Cons.prems(2) by auto
    have "out ! nat yi ! nat xi =
                (case last_write ps yi xi (r # rows) of
                   None \<Rightarrow> arr ! nat yi ! nat xi
                 | Some ms \<Rightarrow> yyyymmdd (civil 1600 (ms div 86400000 + 135140)))"
      if c: "0 \<le> yi \<and> yi < height ps \<and> 0 \<le> xi \<and> xi < width ps" for yi xi
    proof (cases "last_write ps yi xi rows")
      case (Some m)
      then show ?thesis using cells c by simp
    next
      case None
      have "?arr ! nat yi ! nat xi
            = (if yi = y_idx ps r \<and> xi = x_idx ps r then ?v else arr ! nat yi ! nat xi)"
        using True yr xr c by (intro nth_set_cell) auto
      then show ?thesis
        using None cells c ms by (auto simp add: writes_cell_def)
    qed
    with run lo wo show ?thesis unfolding step by blast
  qed
qed

lemma point_in_cell:
  assumes "calculate_raster_parameters_utm gdf = Inr ps"
  shows "\<bar>x_coord p - cell_centre_x ps (x_idx ps p)\<bar> \<le> 5"
    and "\<bar>y_coord p - cell_centre_y ps (y_idx ps p)\<bar> \<le> 5"
proof -
  let ?lo = "Min (set (map x_coord gdf))"
  let ?hi = "Max (set (map y_coord gdf))"
  from params_of_gdf [OF assms]
  have r: "resolution ps = (10, 10)"
    and b: "bounds ps = (Min (set (map x_coord gdf)) - 5, Min (set (map y_coord gdf)) - 5,
                      Max (set (map x_coord gdf)) + 5, Max (set (map y_coord gdf)) + 5)"
    by simp_all
  have "\<bar>of_int (np_round ((x_coord p - (?lo - 5)) / 10 - 1 / 2))
         - ((x_coord p - (?lo - 5)) / 10 - 1 / 2)\<bar> \<le> 1 / 2"
    by (rule np_round_near)
  then show "\<bar>x_coord p - cell_centre_x ps (x_idx ps p)\<bar> \<le> 5"
    unfolding cell_centre_x_def x_idx_def r b by (simp add: field_simps abs_le_iff)
  have "\<bar>of_int (np_round ((?hi + 5 - y_coord p) / 10 - 1 / 2))
         - ((?hi + 5 - y_coord p) / 10 - 1 / 2)\<bar> \<le> 1 / 2"
    by (rule np_round_near)
  then show "\<bar>y_coord p - cell_centre_y ps (y_idx ps p)\<bar> \<le> 5"
    unfolding cell_centre_y_def y_idx_def r b by (simp add: field_simps abs_le_iff)
qed

lemma member_in_raster:
  assumes "calculate_raster_parameters_utm gdf = Inr ps" and "p \<in> set gdf"
  shows "0 \<le> x_idx ps p \<and> x_idx ps p < width ps \<and> 0 \<le> y_idx ps p \<and> y_idx ps p < height ps"
proof -
  from assms(2) have "Min (set (map x_coord gdf)) \<le> x_coord p"
    and "x_coord p \<le> Max (set (map x_coord gdf))"
    and "Min (set (map y_coord gdf)) \<le> y_coord p"
    and "y_coord p \<le> Max (set (map y_coord gdf))"
    by simp_all
  from params_of_gdf [OF assms(1)] idx_bounds [OF this(1,2)] idx_bounds [OF this(3,4)]
  show ?thesis by (simp add: x_idx_def y_idx_def)
qed

text \<open>
  C3, as stated, fails: when two selected points fall in the same cell, as the same point
  read from two files does, the cell holds the date of the later row only.
\<close>

theorem create_raster_same_cell_counterexample:
  "calculate_raster_parameters_utm
     [\<lparr>x_coord = 500005, y_coord = 4500005, tBreak = Some 1600000000000\<rparr>,
      \<lparr>x_coord = 500005, y_coord = 4500005, tBreak = Some 1577836800000\<rparr>]
   = Inr \<lparr>width = 1, height = 1, resolution = (10, 10),
            bounds = (500000, 4500000, 500010, 4500010)\<rparr> \<and>
   create_raster_array_utm
     [\<lparr>x_coord = 500005, y_coord = 4500005, tBreak = Some 1600000000000\<rparr>,
      \<lparr>x_coord = 500005, y_coord = 4500005, tBreak = Some 1577836800000\<rparr>]
     \<lparr>width = 1, height = 1, resolution = (10, 10),
      bounds = (500000, 4500000, 500010, 4500010)\<rparr>
   = Inr [[20200101]] \<and>
   to_datetime 1600000000000 = Inr (2020, 9, 13) \<and>
   yyyymmdd (2020, 9, 13) = 20200913"
proof -
  let ?p = "\<lparr>x_coord = 500005, y_coord = 4500005, tBreak = Some 1600000000000\<rparr>"
  let ?q = "\<lparr>x_coord = 500005, y_coord = 4500005, tBreak = Some 1577836800000\<rparr>"
  let ?ps = "\<lparr>width = 1, height = 1, resolution = (10, 10),
               bounds = (500000, 4500000, 500010, 4500010)\<rparr>"
  have 1: "calculate_raster_parameters_utm [?p, ?q] = Inr ?ps"
    by (simp add: calculate_raster_parameters_utm_def)
  have d1: "to_datetime 1600000000000 = Inr (2020, 9, 13)" by code_simp
  have d2: "to_datetime 1577836800000 = Inr (2020, 1, 1)" by code_simp
  have i: "x_idx ?ps ?p = 0" "y_idx ?ps ?p = 0" "x_idx ?ps ?q = 0" "y_idx ?ps ?q = 0"
    by (simp_all add: x_idx_def y_idx_def np_round_def)
  have 2: "create_raster_array_utm [?p, ?q] ?ps = Inr [[20200101]]"
    by (simp add: create_raster_array_utm_def np_full_def i d1 d2 set_cell_def yyyymmdd_def)
  have 3: "yyyymmdd (2020, 9, 13) = 20200913" by (simp add: yyyymmdd_def)
  from 1 2 d1 3 show ?thesis by simp
qed

text \<open>
  C3, amended. Let the parameters be those of \<open>calculate_raster_parameters_utm\<close> for the
  selected points, and let every non-null \<open>tBreak\<close> be a number of milliseconds for which a
  timestamp exists. Then \<open>create_raster_array_utm\<close> returns a raster of \<open>height\<close> lines and
  \<open>width\<close> columns. Every point lies within 5 m, in both directions, of the centre of the
  cell its coordinates determine, which is a cell of the raster. For every point with a
  non-null \<open>tBreak\<close> such that no later row of the frame with a non-null \<open>tBreak\<close> falls in
  the same cell, that cell holds the point's break date as the integer \<open>YYYYMMDD\<close>. Every
  cell in which no point with a non-null \<open>tBreak\<close> falls holds -9999.
\<close>

theorem create_raster_array_last_break_per_cell:
  assumes params: "calculate_raster_parameters_utm gdf = Inr ps"
    and range: "\<forall>r \<in> set gdf. \<forall>ms. tBreak r = Some ms \<longrightarrow> representable ms"
  shows "\<exists>arr. create_raster_array_utm gdf ps = Inr arr \<and>
           length arr = nat (height ps) \<and>
           (\<forall>line \<in> set arr. length line = nat (width ps)) \<and>
           (\<forall>i < length gdf.
              0 \<le> x_idx ps (gdf ! i) \<and> x_idx ps (gdf ! i) < width ps \<and>
              0 \<le> y_idx ps (gdf ! i) \<and> y_idx ps (gdf ! i) < height ps \<and>
              \<bar>x_coord (gdf ! i) - cell_centre_x ps (x_idx ps (gdf ! i))\<bar> \<le> 5 \<and>
              \<bar>y_coord (gdf ! i) - cell_centre_y ps (y_idx ps (gdf ! i))\<bar> \<le> 5 \<and>
              (\<forall>ms. tBreak (gdf ! i) = Some ms \<and>
                    (\<forall>j. i < j \<and> j < length gdf \<longrightarrow>
                         \<not> writes_cell ps (y_idx ps (gdf ! i)) (x_idx ps (gdf ! i)) (gdf ! j))
                 \<longrightarrow> (\<exists>date. to_datetime ms = Inr date \<and>
                        arr ! nat (y_idx ps (gdf ! i)) ! nat (x_idx ps (gdf ! i))
                          = yyyymmdd date))) \<and>
           (\<forall>yi xi. 0 \<le> yi \<and> yi < height ps \<and> 0 \<le> xi \<and> xi < width ps \<and>
                    (\<forall>r \<in> set gdf. \<not> writes_cell ps yi xi r)
                 \<longrightarrow> arr ! nat yi ! nat xi = - 9999)"
proof -
  from params_of_gdf [OF params] have ne: "gdf \<noteq> []" by simp
  then have "hd gdf \<in> set gdf" by simp
  from member_in_raster [OF params this] have pos: "0 < width ps" "0 < height ps" by simp_all
  let ?arr = "replicate (nat (height ps)) (replicate (nat (width ps)) (- 9999 :: int))"
  have full: "np_full (height ps) (width ps) (- 9999) = Inr ?arr"
    using pos by (simp add: np_full_def)
  have "length ?arr = nat (height ps)" and "\<forall>line \<in> set ?arr. length line = nat (width ps)"
    by simp_all
  from iterrows_cells [OF this range]
  obtain arr where run: "iterrows ps gdf ?arr = Inr arr"
    and l: "length arr = nat (height ps)"
    and w: "\<forall>line \<in> set arr. length line = nat (width ps)"
    and cells: "\<forall>yi xi. 0 \<le> yi \<and> yi < height ps \<and> 0 \<le> xi \<and> xi < width ps \<longrightarrow>
              arr ! nat yi ! nat xi =
                (case last_write ps yi xi gdf of
                   None \<Rightarrow> ?arr ! nat yi ! nat xi
                 | Some ms \<Rightarrow> yyyymmdd (civil 1600 (ms div 86400000 + 135140)))"
    by blast
  have 1: "create_raster_array_utm gdf ps = Inr arr"
    using full run by (simp add: create_raster_array_utm_def)
  have 2: "0 \<le> x_idx ps (gdf ! i) \<and> x_idx ps (gdf ! i) < width ps \<and>
              0 \<le> y_idx ps (gdf ! i) \<and> y_idx ps (gdf ! i) < height ps \<and>
              \<bar>x_coord (gdf ! i) - cell_centre_x ps (x_idx ps (gdf ! i))\<bar> \<le> 5 \<and>
              \<bar>y_coord (gdf ! i) - cell_centre_y ps (y_idx ps (gdf ! i))\<bar> \<le> 5 \<and>
              (\<forall>ms. tBreak (gdf ! i) = Some ms \<and>
                    (\<forall>j. i < j \<and> j < length gdf \<longrightarrow>
                         \<not> writes_cell ps (y_idx ps (gdf ! i)) (x_idx ps (gdf ! i)) (gdf ! j))
                 \<longrightarrow> (\<exists>date. to_datetime ms = Inr date \<and>
                        arr ! nat (y_idx ps (gdf ! i)) ! nat (x_idx ps (gdf ! i))
                          = yyyymmdd date))"
    if i: "i < length gdf" for i
  proof -
    from i have m: "gdf ! i \<in> set gdf" by simp
    note inside = member_in_raster [OF params m]
    note near = point_in_cell [OF params, of "gdf ! i"]
    have "\<exists>date. to_datetime ms = Inr date \<and>
                 arr ! nat (y_idx ps (gdf ! i)) ! nat (x_idx ps (gdf ! i)) = yyyymmdd date"
      if ms: "tBreak (gdf ! i) = Some ms"
        and last: "\<forall>j. i < j \<and> j < length gdf \<longrightarrow>
                     \<not> writes_cell ps (y_idx ps (gdf ! i)) (x_idx ps (gdf ! i)) (gdf ! j)"
      for ms
    proof -
      have "writes_cell ps (y_idx ps (gdf ! i)) (x_idx ps (gdf ! i)) (gdf ! i)"
        using ms by (simp add: writes_cell_def)
      from last_write_nth [OF i this last]
      have "last_write ps (y_idx ps (gdf ! i)) (x_idx ps (gdf ! i)) gdf = Some ms"
        using ms by simp
      with cells inside
      have "arr ! nat (y_idx ps (gdf ! i)) ! nat (x_idx ps (gdf ! i))
            = yyyymmdd (civil 1600 (ms div 86400000 + 135140))"
        by simp
      moreover from range m ms have "representable ms" by blast
      then have "to_datetime ms = Inr (civil 1600 (ms div 86400000 + 135140))"
        by (rule to_datetime_representable)
      ultimately show ?thesis by simp
    qed
    with inside near show ?thesis by blast
  qed
  have 3: "arr ! nat yi ! nat xi = - 9999"
    if c: "0 \<le> yi \<and> yi < height ps \<and> 0 \<le> xi \<and> xi < width ps"
      and none: "\<forall>r \<in> set gdf. \<not> writes_cell ps yi xi r" for yi xi
  proof -
    from none have "last_write ps yi xi gdf = None" by (simp add: last_write_None)
    with cells c have "arr ! nat yi ! nat xi = ?arr ! nat yi ! nat xi" by simp
    also have "\<dots> = - 9999" using c by simp
    finally show ?thesis .
  qed
  from 1 l w 2 3 show ?thesis by blast
qed

theorem create_raster_array_last_break_per_cell_witness:
  "\<exists>arr. create_raster_array_utm
            [\<lparr>x_coord = 500005, y_coord = 4500005, tBreak = Some 1600000000000\<rparr>,
             \<lparr>x_coord = 500025, y_coord = 4500015, tBreak = None\<rparr>,
             \<lparr>x_coord = 500015, y_coord = 4500005, tBreak = Some 1577836800000\<rparr>]
            \<lparr>width = 3, height = 2, resolution = (10, 10),
             bounds = (500000, 4500000, 500030, 4500020)\<rparr> = Inr arr \<and>
         length arr = 2 \<and> arr ! 1 ! 0 = 20200913 \<and> arr ! 0 ! 2 = - 9999"
proof -
  let ?p = "\<lparr>x_coord = 500005, y_coord = 4500005, tBreak = Some 1600000000000\<rparr>"
  let ?q = "\<lparr>x_coord = 500025, y_coord = 4500015, tBreak = None\<rparr>"
  let ?r = "\<lparr>x_coord = 500015, y_coord = 4500005, tBreak = Some 1577836800000\<rparr>"
  let ?gdf = "[?p, ?q, ?r]"
  let ?ps = "\<lparr>width = 3, height = 2, resolution = (10, 10),
               bounds = (500000, 4500000, 500030, 4500020)\<rparr>"
  have h1: "calculate_raster_parameters_utm ?gdf = Inr ?ps"
    by (simp add: calculate_raster_parameters_utm_def)
  have h2: "\<forall>r \<in> set ?gdf. \<forall>ms. tBreak r = Some ms \<longrightarrow> representable ms"
    by (simp add: representable_def)
  have i: "x_idx ?ps ?p = 0" "y_idx ?ps ?p = 1" "x_idx ?ps ?q = 2" "y_idx ?ps ?q = 0"
    "x_idx ?ps ?r = 1" "y_idx ?ps ?r = 1"
    by (simp_all add: x_idx_def y_idx_def np_round_def)
  have d: "to_datetime 1600000000000 = Inr (2020, 9, 13)" by code_simp
  from create_raster_array_last_break_per_cell [OF h1 h2]
  obtain arr where run: "create_raster_array_utm ?gdf ?ps = Inr arr"
    and l: "length arr = nat (height ?ps)"
    and pts: "\<forall>i < length ?gdf.
              0 \<le> x_idx ?ps (?gdf ! i) \<and> x_idx ?ps (?gdf ! i) < width ?ps \<and>
              0 \<le> y_idx ?ps (?gdf ! i) \<and> y_idx ?ps (?gdf ! i) < height ?ps \<and>
              \<bar>x_coord (?gdf ! i) - cell_centre_x ?ps (x_idx ?ps (?gdf ! i))\<bar> \<le> 5 \<and>
              \<bar>y_coord (?gdf ! i) - cell_centre_y ?ps (y_idx ?ps (?gdf ! i))\<bar> \<le> 5 \<and>
              (\<forall>ms. tBreak (?gdf ! i) = Some ms \<and>
                    (\<forall>j. i < j \<and> j < length ?gdf \<longrightarrow>
                         \<not> writes_cell ?ps (y_idx ?ps (?gdf ! i)) (x_idx ?ps (?gdf ! i)) (?gdf ! j))
                 \<longrightarrow> (\<exists>date. to_datetime ms = Inr date \<and>
                        arr ! nat (y_idx ?ps (?gdf ! i)) ! nat (x_idx ?ps (?gdf ! i))
                          = yyyymmdd date))"
    and empty: "\<forall>yi xi. 0 \<le> yi \<and> yi < height ?ps \<and> 0 \<le> xi \<and> xi < width ?ps \<and>
                    (\<forall>r \<in> set ?gdf. \<not> writes_cell ?ps yi xi r)
                 \<longrightarrow> arr ! nat yi ! nat xi = - 9999"
    by blast
  have last: "\<forall>j. 0 < j \<and> j < length ?gdf \<longrightarrow> \<not> writes_cell ?ps 1 0 (?gdf ! j)"
  proof (intro allI impI)
    fix j :: nat
    assume "0 < j \<and> j < length ?gdf"
    then have "j = 1 \<or> j = 2" by auto
    then show "\<not> writes_cell ?ps 1 0 (?gdf ! j)"
      by (auto simp add: writes_cell_def i)
  qed
  have "(0::nat) < length ?gdf" by simp
  from pts [rule_format, OF this]
  have "\<forall>ms. tBreak (?gdf ! 0) = Some ms \<and>
                    (\<forall>j. 0 < j \<and> j < length ?gdf \<longrightarrow>
                         \<not> writes_cell ?ps (y_idx ?ps (?gdf ! 0)) (x_idx ?ps (?gdf ! 0)) (?gdf ! j))
                 \<longrightarrow> (\<exists>date. to_datetime ms = Inr date \<and>
                        arr ! nat (y_idx ?ps (?gdf ! 0)) ! nat (x_idx ?ps (?gdf ! 0))
                          = yyyymmdd date)"
    by blast
  then have "tBreak ?p = Some 1600000000000 \<and>
                    (\<forall>j. 0 < j \<and> j < length ?gdf \<longrightarrow> \<not> writes_cell ?ps 1 0 (?gdf ! j))
                 \<longrightarrow> (\<exists>date. to_datetime 1600000000000 = Inr date \<and>
                        arr ! nat 1 ! nat 0 = yyyymmdd date)"
    unfolding nth_Cons_0 i by (rule spec)
  with last have "\<exists>date. to_datetime 1600000000000 = Inr date \<and> arr ! nat 1 ! nat 0 = yyyymmdd date"
    by simp
  then have a: "arr ! 1 ! 0 = 20200913" by (simp add: d yyyymmdd_def)
  have "\<forall>r \<in> set ?gdf. \<not> writes_cell ?ps 0 2 r"
    by (simp add: writes_cell_def i)
  with empty [rule_format, of 0 2] have "arr ! nat 0 ! nat 2 = - 9999" by simp
  then have b: "arr ! 0 ! 2 = - 9999" by simp
  from run l a b show ?thesis by simp
qed

section \<open>Style file: properties\<close>

lemma break_date_valid:
  assumes "representable ms"
  shows "1600 \<le> fst (break_date ms) \<and> fst (break_date ms) \<le> 2262 \<and>
         1 \<le> fst (snd (break_date ms)) \<and> fst (snd (break_date ms)) \<le> 12 \<and>
         1 \<le> snd (snd (break_date ms)) \<and>
         snd (snd (break_date ms)) \<le> days_in_month (fst (break_date ms)) (fst (snd (break_date ms)))"
proof -
  let ?k = "ms div 86400000 + 135140"
  from assms have lo: "- 9223372036854 \<le> ms" and hi: "ms \<le> 9223372036854"
    by (simp_all add: representable_def)
  have "(- 9223372036854) div 86400000 \<le> ms div 86400000"
    using lo by (intro zdiv_mono1) simp_all
  then have k0: "28388 \<le> ?k" by simp
  have "ms div 86400000 \<le> 9223372036854 div 86400000"
    using hi by (intro zdiv_mono1) simp_all
  then have k1: "?k \<le> 241891" by simp
  then have "?k div 365 \<le> 241891 div 365" by (intro zdiv_mono1) simp_all
  then have "?k div 365 \<le> 662" by simp
  moreover from k0 have "0 \<le> ?k" by simp
  note civil_valid [OF this, of 1600]
  ultimately show ?thesis unfolding break_date_def by linarith
qed

lemma to_datetime_break_date: "representable ms \<Longrightarrow> to_datetime ms = Inr (break_date ms)"
  by (simp add: representable_def to_datetime_def break_date_def)

lemma break_date_year:
  assumes "representable ms"
  shows "yyyymmdd (break_date ms) div 10000 = fst (break_date ms)"
proof -
  obtain y m d where e: "break_date ms = (y, m, d)" by (cases "break_date ms") auto
  from break_date_valid [OF assms] days_in_month_bounds(2) [of y m]
  have "1 \<le> m" "m \<le> 12" "1 \<le> d" "d \<le> 31" unfolding e by simp_all
  from yyyymmdd_digits(1) [OF this] show ?thesis unfolding e by (simp add: yyyymmdd_def)
qed

lemma strptime_break_date:
  assumes "representable ms"
  shows "strptime (yyyymmdd (break_date ms)) = Inr (break_date ms)"
proof -
  obtain y m d where e: "break_date ms = (y, m, d)" by (cases "break_date ms") auto
  from break_date_valid [OF assms] days_in_month_bounds(2) [of y m]
  have b: "1 \<le> m" "m \<le> 12" "1 \<le> d" "d \<le> 31" and v: "d \<le> days_in_month y m"
    and y: "1600 \<le> y" "y \<le> 2262"
    unfolding e by simp_all
  note dg = yyyymmdd_digits [OF b, of y]
  have "10000000 \<le> y * 10000 + m * 100 + d" "y * 10000 + m * 100 + d \<le> 99999999"
    using b y by simp_all
  then show ?thesis
    unfolding e using dg b v by (simp add: strptime_def yyyymmdd_def Let_def)
qed

lemma valid_dates_representable:
  assumes "\<forall>r \<in> set gdf. \<forall>ms. tBreak r = Some ms \<longrightarrow> representable ms"
  shows "valid_dates gdf = Inr (map break_date (breaks gdf))"
  using assms
proof (induction gdf)
  case Nil
  then show ?case by (simp add: breaks_def)
next
  case (Cons r gdf)
  then have ih: "valid_dates gdf = Inr (map break_date (breaks gdf))" by simp
  show ?case
  proof (cases "tBreak r")
    case None
    then show ?thesis using ih by (simp add: breaks_def)
  next
    case (Some ms)
    with Cons.prems have "representable ms" by simp
    then have "to_datetime ms = Inr (break_date ms)" by (rule to_datetime_break_date)
    then show ?thesis using Some ih by (simp add: breaks_def)
  qed
qed

lemma breaks_representable:
  assumes "\<forall>r \<in> set gdf. \<forall>ms. tBreak r = Some ms \<longrightarrow> representable ms"
  shows "\<forall>ms \<in> set (breaks gdf). representable ms"
  using assms by (auto simp add: breaks_def split: option.splits)

lemma keys_append_date:
  "map fst (append_date year v d)
   = (if year \<in> fst ` set d then map fst d else map fst d @ [year])"
  by (induction d) (force+)

lemma map_of_append_date:
  "map_of (append_date year v d) y
   = (if y = year then Some ((case map_of d year of None \<Rightarrow> [] | Some ds \<Rightarrow> ds) @ [v])
      else map_of d y)"
  by (induction d) auto

lemma group_by_year_snoc:
  "group_by_year (dates @ [date])
   = append_date (fst date) (yyyymmdd date) (group_by_year dates)"
  by (simp add: group_by_year_def)

lemma group_by_year_props:
  "distinct (map fst (group_by_year dates)) \<and>
   set (map fst (group_by_year dates)) = fst ` set dates \<and>
   (\<forall>y. map_of (group_by_year dates) y
        = (if y \<in> fst ` set dates
           then Some (map yyyymmdd (filter (\<lambda>date. fst date = y) dates)) else None))"
proof (induction dates rule: rev_induct)
  case Nil
  then show ?case by (simp add: group_by_year_def)
next
  case (snoc date dates)
  let ?d = "group_by_year dates"
  from snoc have dist: "distinct (map fst ?d)"
    and keys: "set (map fst ?d) = fst ` set dates"
    and vals: "\<And>y. map_of ?d y
        = (if y \<in> fst ` set dates
           then Some (map yyyymmdd (filter (\<lambda>date. fst date = y) dates)) else None)"
    by simp_all
  have k: "fst ` set ?d = fst ` set dates" using keys by simp
  have 1: "distinct (map fst (group_by_year (dates @ [date])))"
    unfolding group_by_year_snoc keys_append_date using dist by simp
  have 2: "set (map fst (group_by_year (dates @ [date]))) = fst ` set (dates @ [date])"
    unfolding group_by_year_snoc keys_append_date using k keys by auto
  have 3: "map_of (group_by_year (dates @ [date])) y
        = (if y \<in> fst ` set (dates @ [date])
           then Some (map yyyymmdd (filter (\<lambda>date. fst date = y) (dates @ [date]))) else None)"
    for y
  proof (cases "y = fst date")
    case True
    have "filter (\<lambda>dt. fst dt = fst date) dates = [] " if "fst date \<notin> fst ` set dates"
    proof -
      from that have "\<forall>dt \<in> set dates. fst dt \<noteq> fst date" by (metis imageI)
      then show ?thesis by (simp add: filter_empty_conv)
    qed
    then show ?thesis
      unfolding group_by_year_snoc map_of_append_date using True vals [of "fst date"] by auto
  next
    case False
    then show ?thesis
      unfolding group_by_year_snoc map_of_append_date using vals [of y] by auto
  qed
  from 1 2 3 show ?case by blast
qed

lemma year_entries_parsed:
  assumes "\<forall>v \<in> set vs. strptime v = Inr (f v)"
  shows "year_entries vs
         = Inr (map (\<lambda>v. \<lparr>entry_value = v, entry_label = DateLabel (f v)\<rparr>) vs)"
  using assms by (induction vs) simp_all

lemma for_years_parsed:
  assumes "\<forall>y \<in> set years. \<exists>ds. map_of d y = Some ds \<and> (\<forall>v \<in> set ds. strptime v = Inr (f v))"
  shows "for_years d years
         = Inr (concat (map (\<lambda>y. map (\<lambda>v. \<lparr>entry_value = v, entry_label = DateLabel (f v)\<rparr>)
                                    (sort (remdups (the (map_of d y))))) years))"
  using assms
proof (induction years)
  case Nil
  then show ?case by simp
next
  case (Cons y years)
  then obtain ds where ds: "map_of d y = Some ds" and p: "\<forall>v \<in> set ds. strptime v = Inr (f v)"
    by auto
  from p have "\<forall>v \<in> set (sort (remdups ds)). strptime v = Inr (f v)" by simp
  from year_entries_parsed [OF this] Cons ds show ?case by simp
qed

lemma sorted_blocks:
  fixes g :: "int \<Rightarrow> int list"
  assumes "sorted years" and "distinct years"
    and "\<forall>y \<in> set years. \<forall>v \<in> set (g y). v div 10000 = y"
  shows "sorted (concat (map (\<lambda>y. sort (remdups (g y))) years)) \<and>
         distinct (concat (map (\<lambda>y. sort (remdups (g y))) years))"
  using assms
proof (induction years)
  case Nil
  then show ?case by simp
next
  case (Cons y years)
  then have ih: "sorted (concat (map (\<lambda>y. sort (remdups (g y))) years))"
    "distinct (concat (map (\<lambda>y. sort (remdups (g y))) years))"
    by simp_all
  have lt: "a < b" if a: "a \<in> set (g y)" and b: "b \<in> set (g z)" and z: "z \<in> set years" for a b z
  proof -
    from Cons.prems a have "a div 10000 = y" by simp
    moreover from Cons.prems b z have "b div 10000 = z" by simp
    moreover from Cons.prems z have "y < z" by (auto simp add: less_le)
    ultimately have "a div 10000 < b div 10000" by simp
    then show ?thesis by (metis linorder_not_less zdiv_mono1 zero_less_numeral)
  qed
  have 1: "sorted (concat (map (\<lambda>y. sort (remdups (g y))) (y # years)))"
    using ih(1) lt by (fastforce simp add: sorted_append)
  have 2: "distinct (concat (map (\<lambda>y. sort (remdups (g y))) (y # years)))"
    using ih(2) lt by fastforce
  from 1 2 show ?case by blast
qed

lemma strptime_Inr:
  "strptime v = Inr date \<Longrightarrow> date = (v div 10000, v div 100 mod 100, v mod 100)"
  by (auto simp add: strptime_def Let_def split: if_splits)

text \<open>
  C7, as stated, fails: a non-null break for which no timestamp exists makes
  \<open>pd.to_datetime\<close> raise, and no style file is written.
\<close>

theorem create_qgis_style_out_of_bounds_counterexample:
  "create_qgis_style_file
     [\<lparr>x_coord = 500005, y_coord = 4500005, tBreak = Some 10000000000000000\<rparr>]
   = Inl OutOfBoundsDatetime"
  by (simp add: create_qgis_style_file_def to_datetime_def)

text \<open>
  C7, amended. For every input point set with at least one non-null \<open>tBreak\<close> in which
  every non-null \<open>tBreak\<close> is a number of milliseconds for which a timestamp exists, the
  written style file holds exactly one palette entry for each distinct break date of the
  data, with the date as the integer \<open>YYYYMMDD\<close> for value and the date for label, in
  ascending order of value, followed by one final entry for the nodata value -9999. The
  digits of a value before the last four are the year of its date, so that ascending
  values are ascending years and, within a year, ascending dates.
\<close>

theorem create_qgis_style_file_entries:
  assumes some: "\<exists>r \<in> set gdf. tBreak r \<noteq> None"
    and range: "\<forall>r \<in> set gdf. \<forall>ms. tBreak r = Some ms \<longrightarrow> representable ms"
  shows "\<exists>entries.
           create_qgis_style_file gdf
             = Inr (entries @ [\<lparr>entry_value = - 9999, entry_label = NoData\<rparr>]) \<and>
           map entry_value entries
             = sort (remdups (map (\<lambda>ms. yyyymmdd (break_date ms)) (breaks gdf))) \<and>
           (\<forall>e \<in> set entries. \<exists>ms \<in> set (breaks gdf).
              entry_value e = yyyymmdd (break_date ms) \<and>
              entry_label e = DateLabel (break_date ms)) \<and>
           (\<forall>ms \<in> set (breaks gdf).
              to_datetime ms = Inr (break_date ms) \<and>
              yyyymmdd (break_date ms) div 10000 = fst (break_date ms))"
proof -
  define dates where "dates = map break_date (breaks gdf)"
  define d where "d = group_by_year dates"
  define years where "years = sort (map fst d)"
  define f :: "int \<Rightarrow> date" where "f = (\<lambda>v. (v div 10000, v div 100 mod 100, v mod 100))"
  define E where "E = (\<lambda>v. \<lparr>entry_value = v, entry_label = DateLabel (f v)\<rparr>)"
  define g where "g = (\<lambda>y. the (map_of d y))"
  define entries where "entries = concat (map (\<lambda>y. map E (sort (remdups (g y)))) years)"
  note rep = breaks_representable [OF range]
  have vd: "valid_dates gdf = Inr dates"
    unfolding dates_def using range by (rule valid_dates_representable)
  from group_by_year_props [of dates]
  have dist: "distinct (map fst d)" and keys: "set (map fst d) = fst ` set dates"
    and vals: "\<And>y. map_of d y
        = (if y \<in> fst ` set dates
           then Some (map yyyymmdd (filter (\<lambda>date. fst date = y) dates)) else None)"
    unfolding d_def by simp_all
  have ys: "sorted years" "distinct years" "set years = fst ` set dates"
    unfolding years_def using dist keys by simp_all
  have gy: "g y = map yyyymmdd (filter (\<lambda>date. fst date = y) dates)" if "y \<in> set years" for y
    using that ys(3) vals [of y] by (simp add: g_def)
  have member: "\<exists>ms \<in> set (breaks gdf). v = yyyymmdd (break_date ms) \<and> fst (break_date ms) = y"
    if "y \<in> set years" and "v \<in> set (g y)" for y v
    using that gy [of y] by (auto simp add: dates_def)
  have parse: "strptime (yyyymmdd (break_date ms)) = Inr (f (yyyymmdd (break_date ms)))"
    and same: "f (yyyymmdd (break_date ms)) = break_date ms" if "ms \<in> set (breaks gdf)" for ms
  proof -
    from that rep have "representable ms" by simp
    then have p: "strptime (yyyymmdd (break_date ms)) = Inr (break_date ms)"
      by (rule strptime_break_date)
    from strptime_Inr [OF this] show "f (yyyymmdd (break_date ms)) = break_date ms"
      by (simp add: f_def)
    with p show "strptime (yyyymmdd (break_date ms)) = Inr (f (yyyymmdd (break_date ms)))"
      by simp
  qed
  have "\<forall>y \<in> set years. \<exists>ds. map_of d y = Some ds \<and> (\<forall>v \<in> set ds. strptime v = Inr (f v))"
  proof
    fix y assume y: "y \<in> set years"
    with ys(3) vals [of y] have "map_of d y = Some (g y)" by (simp add: g_def)
    moreover have "\<forall>v \<in> set (g y). strptime v = Inr (f v)"
      using member [OF y] parse by blast
    ultimately show "\<exists>ds. map_of d y = Some ds \<and> (\<forall>v \<in> set ds. strptime v = Inr (f v))"
      by blast
  qed
  from for_years_parsed [OF this]
  have fy: "for_years d years = Inr entries"
    unfolding entries_def E_def g_def .
  have 1: "create_qgis_style_file gdf
             = Inr (entries @ [\<lparr>entry_value = - 9999, entry_label = NoData\<rparr>])"
    using vd fy by (simp add: create_qgis_style_file_def Let_def d_def years_def)
  have vs: "map entry_value entries = concat (map (\<lambda>y. sort (remdups (g y))) years)"
    unfolding entries_def by (simp add: map_concat o_def E_def)
  have "\<forall>y \<in> set years. \<forall>v \<in> set (g y). v div 10000 = y"
  proof (intro ballI)
    fix y v assume "y \<in> set years" and "v \<in> set (g y)"
    from member [OF this] obtain ms where ms: "ms \<in> set (breaks gdf)"
      and v: "v = yyyymmdd (break_date ms)" and y: "fst (break_date ms) = y" by blast
    from ms rep have "representable ms" by simp
    from break_date_year [OF this] v y show "v div 10000 = y" by simp
  qed
  from sorted_blocks [OF ys(1,2) this]
  have s: "sorted (map entry_value entries)" and di: "distinct (map entry_value entries)"
    unfolding vs by simp_all
  have "set (map entry_value entries) = (\<Union>y \<in> set years. set (g y))"
    unfolding vs by simp
  also have "\<dots> = (\<Union>y \<in> set years. yyyymmdd ` {date \<in> set dates. fst date = y})"
    using gy by simp
  also have "\<dots> = yyyymmdd ` set dates" using ys(3) by auto
  also have "\<dots> = set (sort (remdups (map (\<lambda>ms. yyyymmdd (break_date ms)) (breaks gdf))))"
    by (simp add: dates_def image_image)
  finally have "set (map entry_value entries)
                = set (sort (remdups (map (\<lambda>ms. yyyymmdd (break_date ms)) (breaks gdf))))" .
  moreover have "sorted (sort (remdups (map (\<lambda>ms. yyyymmdd (break_date ms)) (breaks gdf))))"
    and "distinct (sort (remdups (map (\<lambda>ms. yyyymmdd (break_date ms)) (breaks gdf))))"
    by simp_all
  ultimately have 2: "map entry_value entries
             = sort (remdups (map (\<lambda>ms. yyyymmdd (break_date ms)) (breaks gdf)))"
    using s di by (intro sorted_distinct_set_unique) simp_all
  have 3: "\<forall>e \<in> set entries. \<exists>ms \<in> set (breaks gdf).
              entry_value e = yyyymmdd (break_date ms) \<and>
              entry_label e = DateLabel (break_date ms)"
  proof
    fix e assume "e \<in> set entries"
    then obtain y v where y: "y \<in> set years" and v: "v \<in> set (g y)" and e: "e = E v"
      unfolding entries_def by auto
    from member [OF y v] obtain ms where ms: "ms \<in> set (breaks gdf)"
      and "v = yyyymmdd (break_date ms)" by blast
    with same [OF ms] e
    have "entry_value e = yyyymmdd (break_date ms) \<and> entry_label e = DateLabel (break_date ms)"
      by (simp add: E_def)
    with ms show "\<exists>ms \<in> set (breaks gdf).
              entry_value e = yyyymmdd (break_date ms) \<and>
              entry_label e = DateLabel (break_date ms)" by blast
  qed
  have 4: "\<forall>ms \<in> set (breaks gdf).
              to_datetime ms = Inr (break_date ms) \<and>
              yyyymmdd (break_date ms) div 10000 = fst (break_date ms)"
    using rep to_datetime_break_date break_date_year by blast
  from 1 2 3 4 show ?thesis by blast
qed

theorem create_qgis_style_file_entries_witness:
  "\<exists>entries.
     create_qgis_style_file
       [\<lparr>x_coord = 500005, y_coord = 4500005, tBreak = Some 1600000000000\<rparr>,
        \<lparr>x_coord = 500025, y_coord = 4500015, tBreak = None\<rparr>,
        \<lparr>x_coord = 500015, y_coord = 4500005, tBreak = Some 1500000000000\<rparr>,
        \<lparr>x_coord = 500015, y_coord = 4500015, tBreak = Some 1600000000001\<rparr>]
     = Inr (entries @ [\<lparr>entry_value = - 9999, entry_label = NoData\<rparr>]) \<and>
     map entry_value entries = [20170714, 20200913]"
proof -
  let ?gdf = "[\<lparr>x_coord = 500005, y_coord = 4500005, tBreak = Some 1600000000000\<rparr>,
        \<lparr>x_coord = 500025, y_coord = 4500015, tBreak = None\<rparr>,
        \<lparr>x_coord = 500015, y_coord = 4500005, tBreak = Some 1500000000000\<rparr>,
        \<lparr>x_coord = 500015, y_coord = 4500015, tBreak = Some 1600000000001\<rparr>]"
  have h1: "\<exists>r \<in> set ?gdf. tBreak r \<noteq> None" by simp
  have h2: "\<forall>r \<in> set ?gdf. \<forall>ms. tBreak r = Some ms \<longrightarrow> representable ms"
    by (simp add: representable_def)
  have b: "breaks ?gdf = [1600000000000, 1500000000000, 1600000000001]"
    by (simp add: breaks_def)
  have d: "yyyymmdd (break_date 1600000000000) = 20200913"
    "yyyymmdd (break_date 1500000000000) = 20170714"
    "yyyymmdd (break_date 1600000000001) = 20200913"
    by code_simp+
  have s: "sort (remdups [20200913, 20170714, 20200913 :: int]) = [20170714, 20200913]"
    by code_simp
  have v: "sort (remdups (map (\<lambda>ms. yyyymmdd (break_date ms)) (breaks ?gdf)))
           = [20170714, 20200913]"
    unfolding b list.map d s ..
  from create_qgis_style_file_entries [OF h1 h2]
  obtain entries where run:
    "create_qgis_style_file ?gdf
       = Inr (entries @ [\<lparr>entry_value = - 9999, entry_label = NoData\<rparr>])"
    and vals: "map entry_value entries
         = sort (remdups (map (\<lambda>ms. yyyymmdd (break_date ms)) (breaks ?gdf)))"
    by (elim exE conjE)
  from vals have "map entry_value entries = [20170714, 20200913]" unfolding v .
  with run show ?thesis by (intro exI [of _ entries] conjI)
qed

section \<open>Download pool and mosaic loop: properties\<close>

lemma main_steps_invariant:
  assumes "pool_invariant n s" and "s' \<in> set (main_steps n m s)"
  shows "pool_invariant n s'"
proof (cases "pc s")
  case (Submitting i)
  then show ?thesis using assms
    by (auto simp add: pool_invariant_def main_steps_def split: if_splits)
next
  case (Waiting j)
  show ?thesis
  proof (cases "j < length (futures s)")
    case True
    then show ?thesis using assms Waiting
      by (auto simp add: pool_invariant_def main_steps_def less_Suc_eq split: if_splits future.splits)
  next
    case False
    with assms Waiting have l: "length (futures s) = n" and "j = n"
      and d: "\<forall>k < j. futures s ! k = Done" and s': "s' = s\<lparr>pc := Shutdown\<rparr>"
      by (auto simp add: pool_invariant_def main_steps_def)
    then have "futures s = replicate n Done"
      by (auto simp add: list_eq_iff_nth_eq)
    then show ?thesis using s' by (simp add: pool_invariant_def)
  qed
next
  case Shutdown
  then show ?thesis using assms
    by (auto simp add: pool_invariant_def main_steps_def split: if_splits)
next
  case (Mosaic i)
  then show ?thesis using assms
    by (auto simp add: pool_invariant_def main_steps_def split: if_splits)
next
  case Finished
  then show ?thesis using assms by (simp add: main_steps_def)
next
  case Raised
  then show ?thesis using assms by (simp add: main_steps_def)
qed

lemma worker_steps_invariant:
  assumes "pool_invariant n s" and "j < length (futures s)" and "s' \<in> set (worker_steps s j)"
  shows "pool_invariant n s'"
proof -
  from assms(3) have nd: "futures s ! j \<noteq> Done" and p: "pc s' = pc s"
    and "\<exists>f. futures s' = (futures s)[j := f]"
    by (auto simp add: worker_steps_def split: future.splits if_splits)
  then obtain f where f: "futures s' = (futures s)[j := f]" by blast
  show ?thesis
  proof (cases "pc s")
    case (Submitting i)
    then show ?thesis using assms(1) p f by (simp add: pool_invariant_def)
  next
    case (Waiting w)
    with assms(1) nd have "\<not> j < w" by (auto simp add: pool_invariant_def)
    then show ?thesis using assms(1) Waiting p f by (auto simp add: pool_invariant_def)
  next
    case Raised
    then show ?thesis using p by (simp add: pool_invariant_def)
  next
    case Shutdown
    with assms(1) have "futures s = replicate n Done" by (simp add: pool_invariant_def)
    with nd assms(2) show ?thesis by simp
  next
    case (Mosaic i)
    with assms(1) have "futures s = replicate n Done" by (simp add: pool_invariant_def)
    with nd assms(2) show ?thesis by simp
  next
    case Finished
    with assms(1) have "futures s = replicate n Done" by (simp add: pool_invariant_def)
    with nd assms(2) show ?thesis by simp
  qed
qed

lemma reachable_invariant:
  assumes "reachable n m s"
  shows "pool_invariant n s"
  using assms
proof (induction rule: reachable.induct)
  case start
  then show ?case by (simp add: pool_invariant_def initial_def)
next
  case (step s s')
  from step.hyps(2) consider "s' \<in> set (main_steps n m s)"
    | j where "j < length (futures s)" and "s' \<in> set (worker_steps s j)"
    by (auto simp add: next_states_def)
  then show ?case
  proof cases
    case 1
    with step.IH show ?thesis by (rule main_steps_invariant)
  next
    case 2
    with step.IH show ?thesis by (rule worker_steps_invariant)
  qed
qed

text \<open>
  C8. In every reachable state of \<open>process_and_mosaic_images\<close> in which the main process
  is in the mosaic loop, about to call \<open>combine_tiffs_to_mosaic\<close> for some image, the pool
  holds one future for each task submitted and every one of them is done: no mosaic
  combination begins while a download task is pending or running.
\<close>

theorem mosaic_after_all_downloads:
  assumes "reachable n_tasks num_images s" and "pc s = Mosaic i"
  shows "futures s = replicate n_tasks Done"
  using reachable_invariant [OF assms(1)] assms(2) by (simp add: pool_invariant_def)

theorem mosaic_after_all_downloads_witness:
  "reachable 2 1 \<lparr>pc = Mosaic 0, futures = [Done, Done]\<rparr> \<and>
   futures \<lparr>pc = Mosaic 0, futures = [Done, Done]\<rparr> = replicate 2 Done"
proof -
  have u: "[0..<2] = [0, Suc 0]" by (simp add: upt_rec)
  note defs = next_states_def main_steps_def worker_steps_def u
  have "reachable 2 1 \<lparr>pc = Submitting 0, futures = []\<rparr>"
    using reachable.start [of 2 1] by (simp add: initial_def)
  then have "reachable 2 1 \<lparr>pc = Submitting 1, futures = [Pending]\<rparr>"
    by (rule reachable.step) (simp add: defs)
  then have "reachable 2 1 \<lparr>pc = Submitting 2, futures = [Pending, Pending]\<rparr>"
    by (rule reachable.step) (simp add: defs)
  then have "reachable 2 1 \<lparr>pc = Waiting 0, futures = [Pending, Pending]\<rparr>"
    by (rule reachable.step) (simp add: defs)
  then have "reachable 2 1 \<lparr>pc = Waiting 0, futures = [Running, Pending]\<rparr>"
    by (rule reachable.step) (simp add: defs)
  then have "reachable 2 1 \<lparr>pc = Waiting 0, futures = [Running, Running]\<rparr>"
    by (rule reachable.step) (simp add: defs)
  then have "reachable 2 1 \<lparr>pc = Waiting 0, futures = [Done, Running]\<rparr>"
    by (rule reachable.step) (simp add: defs)
  then have "reachable 2 1 \<lparr>pc = Waiting 1, futures = [Done, Running]\<rparr>"
    by (rule reachable.step) (simp add: defs)
  then have "reachable 2 1 \<lparr>pc = Waiting 1, futures = [Done, Done]\<rparr>"
    by (rule reachable.step) (simp add: defs)
  then have "reachable 2 1 \<lparr>pc = Waiting 2, futures = [Done, Done]\<rparr>"
    by (rule reachable.step) (simp add: defs)
  then have "reachable 2 1 \<lparr>pc = Shutdown, futures = [Done, Done]\<rparr>"
    by (rule reachable.step) (simp add: defs)
  then have r: "reachable 2 1 \<lparr>pc = Mosaic 0, futures = [Done, Done]\<rparr>"
    by (rule reachable.step) (simp add: defs)
  from mosaic_after_all_downloads [OF r, of 0] r show ?thesis by simp
qed

section \<open>Clipping the mosaic: properties\<close>











end
